theory Spec2Isabelle
  imports Complex_Main "HOL-Library.Monad_Syntax"
begin

section \<open>The module graph\<close>

text \<open>
  The architecture visualizer keeps its module graph in a directed, non-multi
  \<^verbatim>\<open>graphlib.Graph\<close>. The library stores nodes and edges in objects keyed by
  name, so a graph is a list of keys in insertion order together with the label stored
  under each key. Node names are file paths and package names; none of them is a
  canonical array index, so the key order of the objects is the insertion order.
\<close>

type_synonym node = string

datatype rel_type = Import | Export | ReExport | DynamicImport | Require

text \<open>
  A \<^verbatim>\<open>Relationship\<close> of \<^verbatim>\<open>types.ts\<close>. Its optional list of imported names
  is never read by the graph code and is left out.
\<close>

record relationship =
  source :: node
  target :: node
  rtype :: rel_type
  weight :: nat

record edge_label =
  el_type :: rel_type
  el_weight :: nat

record graph =
  nodeKeys :: "node list"
  nodeLabel :: "node \<rightharpoonup> string"
  edgeKeys :: "(node \<times> node) list"
  edgeLabel :: "(node \<times> node) \<rightharpoonup> edge_label"

definition emptyGraph :: graph where
  "emptyGraph = \<lparr>nodeKeys = [], nodeLabel = Map.empty, edgeKeys = [], edgeLabel = Map.empty\<rparr>"

definition hasNode :: "graph \<Rightarrow> node \<Rightarrow> bool" where
  "hasNode g v = (v \<in> set (nodeKeys g))"

text \<open>\<^verbatim>\<open>setNode(v, value)\<close>: an existing node only gets its label replaced.\<close>

definition setNode :: "graph \<Rightarrow> node \<Rightarrow> string \<Rightarrow> graph" where
  "setNode g v l =
     (if hasNode g v then g\<lparr>nodeLabel := (nodeLabel g)(v \<mapsto> l)\<rparr>
      else g\<lparr>nodeKeys := nodeKeys g @ [v], nodeLabel := (nodeLabel g)(v \<mapsto> l)\<rparr>)"

text \<open>
  \<^verbatim>\<open>setNode(v)\<close> without a value, as \<^verbatim>\<open>setEdge\<close> calls it: an existing node
  is left alone, a new one gets the default label (undefined, here the empty string).
\<close>

definition ensureNode :: "graph \<Rightarrow> node \<Rightarrow> graph" where
  "ensureNode g v =
     (if hasNode g v then g
      else g\<lparr>nodeKeys := nodeKeys g @ [v], nodeLabel := (nodeLabel g)(v \<mapsto> [])\<rparr>)"

text \<open>
  \<^verbatim>\<open>setEdge(v, w, value)\<close>: when the edge exists its label is overwritten and
  nothing else changes; otherwise both end points are created if missing and the edge
  is appended.
\<close>

definition setEdge :: "graph \<Rightarrow> node \<Rightarrow> node \<Rightarrow> edge_label \<Rightarrow> graph" where
  "setEdge g v w l =
     (if (v, w) \<in> set (edgeKeys g) then g\<lparr>edgeLabel := (edgeLabel g)((v, w) \<mapsto> l)\<rparr>
      else (let g' = ensureNode (ensureNode g v) w
            in g'\<lparr>edgeKeys := edgeKeys g' @ [(v, w)],
                  edgeLabel := (edgeLabel g')((v, w) \<mapsto> l)\<rparr>))"

definition nodes :: "graph \<Rightarrow> node list" where
  "nodes g = nodeKeys g"

definition edges :: "graph \<Rightarrow> (node \<times> node) list" where
  "edges g = edgeKeys g"

text \<open>
  \<^verbatim>\<open>successors(v)\<close> and \<^verbatim>\<open>predecessors(v)\<close> list the keys of the library's
  adjacency objects: one key per edge, in the order the edges were created. The
  callers replace the \<^verbatim>\<open>undefined\<close> of an unknown node by the empty list.
\<close>

definition successors :: "graph \<Rightarrow> node \<Rightarrow> node list" where
  "successors g v = map snd (filter (\<lambda>e. fst e = v) (edgeKeys g))"

definition predecessors :: "graph \<Rightarrow> node \<Rightarrow> node list" where
  "predecessors g v = map fst (filter (\<lambda>e. snd e = v) (edgeKeys g))"

subsection \<open>buildGraph\<close>

definition addRelationship :: "graph \<Rightarrow> relationship \<Rightarrow> graph" where
  "addRelationship g rel =
     (let g1 = (if \<not> hasNode g (source rel) then setNode g (source rel) (source rel) else g);
          g2 = (if \<not> hasNode g1 (target rel) then setNode g1 (target rel) (target rel) else g1)
      in setEdge g2 (source rel) (target rel)
           \<lparr>el_type = rtype rel, el_weight = weight rel\<rparr>)"

definition buildGraph :: "relationship list \<Rightarrow> graph" where
  "buildGraph relationships = foldl addRelationship emptyGraph relationships"

definition edgeWeight :: "graph \<Rightarrow> node \<Rightarrow> node \<Rightarrow> nat option" where
  "edgeWeight g v w = map_option el_weight (edgeLabel g (v, w))"

section \<open>Cycle detection\<close>

text \<open>
  \<^verbatim>\<open>findStronglyConnectedComponents\<close> is Tarjan's algorithm with its working
  data in closures: two maps from node to number, the set and the array of the nodes on
  the stack, the components found so far and the next index. The model threads them as a
  record. The top of the stack is the head of the list.
\<close>

record tstate =
  indices :: "node \<rightharpoonup> nat"
  lowLinks :: "node \<rightharpoonup> nat"
  onStack :: "node set"
  stack :: "node list"
  sccs :: "node list list"
  index :: nat

text \<open>
  The \<^verbatim>\<open>do ... while (w !== node)\<close> loop that pops a component off the stack. The
  node is on the stack whenever the loop starts (lemma \<open>popScc_eq\<close> below), so the
  equation for the empty stack is never used.
\<close>

fun popScc :: "node \<Rightarrow> node list \<Rightarrow> node list \<Rightarrow> node list \<times> node list" where
  "popScc node [] scc = (scc, [])"
| "popScc node (w # stk) scc =
     (if w = node then (scc @ [w], stk) else popScc node stk (scc @ [w]))"

definition finishNode :: "node \<Rightarrow> tstate \<Rightarrow> tstate" where
  "finishNode node st =
     (if lowLinks st node = indices st node then
        (let (scc, stk) = popScc node (stack st) [];
             st' = st\<lparr>stack := stk, onStack := onStack st - set scc\<rparr>
         in if length scc > 1 then st'\<lparr>sccs := sccs st' @ [rev scc]\<rparr> else st')
      else st)"

definition enterNode :: "node \<Rightarrow> tstate \<Rightarrow> tstate" where
  "enterNode node st =
     st\<lparr>indices := (indices st)(node \<mapsto> index st),
        lowLinks := (lowLinks st)(node \<mapsto> index st),
        index := index st + 1,
        stack := node # stack st,
        onStack := insert node (onStack st)\<rparr>"

text \<open>
  \<^verbatim>\<open>lowLinks.set(node, Math.min(lowLinks.get(node)!, k))\<close>. The code reads the maps
  with \<^verbatim>\<open>!\<close> only at nodes it has entered, where they are defined.
\<close>

definition lowerLink :: "node \<Rightarrow> nat \<Rightarrow> tstate \<Rightarrow> tstate" where
  "lowerLink node k st = st\<lparr>lowLinks := (lowLinks st)(node \<mapsto> min (the (lowLinks st node)) k)\<rparr>"

function (domintros) strongConnect :: "graph \<Rightarrow> node \<Rightarrow> tstate \<Rightarrow> tstate"
  and visitSuccessors :: "graph \<Rightarrow> node \<Rightarrow> node list \<Rightarrow> tstate \<Rightarrow> tstate" where
  "strongConnect g node st =
     finishNode node (visitSuccessors g node (successors g node) (enterNode node st))"
| "visitSuccessors g node [] st = st"
| "visitSuccessors g node (s # ss) st =
     (if indices st s = None then
        (let st' = strongConnect g s st
         in visitSuccessors g node ss (lowerLink node (the (lowLinks st' s)) st'))
      else if s \<in> onStack st then
        visitSuccessors g node ss (lowerLink node (the (indices st s)) st)
      else visitSuccessors g node ss st)"
  by pat_completeness auto


lemma indices_finishNode [simp]: "indices (finishNode node st) = indices st"
  by (simp add: finishNode_def Let_def split: prod.splits)

lemma indices_enterNode [simp]:
  "indices (enterNode node st) = (indices st)(node \<mapsto> index st)"
  by (simp add: enterNode_def)

lemma indices_lowerLink [simp]: "indices (lowerLink node k st) = indices st"
  by (simp add: lowerLink_def)

lemma visited_grows_partial:
  "strongConnect_visitSuccessors_dom (Inl (g, node, st)) \<Longrightarrow>
     insert node (dom (indices st)) \<subseteq> dom (indices (strongConnect g node st))"
  "strongConnect_visitSuccessors_dom (Inr (g, node, l, st)) \<Longrightarrow>
     dom (indices st) \<subseteq> dom (indices (visitSuccessors g node l st))"
proof (induction g node st and g node l st rule: strongConnect_visitSuccessors.pinduct)
  case (1 g node st)
  have "dom (indices (enterNode node st)) = insert node (dom (indices st))"
    by simp
  with 1 show ?case
    by (simp add: strongConnect.psimps del: indices_enterNode)
next
  case (2 g node st)
  then show ?case by (simp add: visitSuccessors.psimps)
next
  case (3 g node s ss st)
  show ?case
  proof (cases "indices st s = None")
    case True
    have "dom (indices st) \<subseteq> dom (indices (strongConnect g s st))"
      using 3(2)[OF True] by blast
    also have "\<dots> \<subseteq> dom (indices (visitSuccessors g node ss
        (lowerLink node (the (lowLinks (strongConnect g s st) s)) (strongConnect g s st))))"
      using 3(3)[OF True refl] by simp
    finally show ?thesis
      using 3(1) True by (simp add: visitSuccessors.psimps Let_def)
  next
    case False
    with 3(1,4,5) show ?thesis
      by (cases "s \<in> onStack st") (auto simp: visitSuccessors.psimps)
  qed
qed

definition edgeTargets :: "graph \<Rightarrow> node set" where
  "edgeTargets g = snd ` set (edgeKeys g)"

lemma successors_subset_targets: "set (successors g v) \<subseteq> edgeTargets g"
  by (auto simp: successors_def edgeTargets_def)

definition tarjanMeasure ::
  "(graph \<times> node \<times> tstate) + (graph \<times> node \<times> node list \<times> tstate) \<Rightarrow> nat \<times> nat" where
  "tarjanMeasure x =
     (case x of
        Inl (g, node, st) \<Rightarrow>
          (card (edgeTargets g - insert node (dom (indices st))), Suc (length (successors g node)))
      | Inr (g, node, l, st) \<Rightarrow>
          (card ((edgeTargets g \<union> set l) - dom (indices st)), length l))"

termination strongConnect
proof (relation "inv_image (less_than <*lex*> less_than) tarjanMeasure")
  show "wf (inv_image (less_than <*lex*> less_than) tarjanMeasure)"
    by (intro wf_inv_image wf_lex_prod wf_less_than)
next
  fix g node and st :: tstate
  have "(edgeTargets g \<union> set (successors g node)) - dom (indices (enterNode node st))
        = edgeTargets g - insert node (dom (indices st))"
    using successors_subset_targets[of g node] by auto
  then show "(Inr (g, node, successors g node, enterNode node st), Inl (g, node, st))
        \<in> inv_image (less_than <*lex*> less_than) tarjanMeasure"
    by (simp add: tarjanMeasure_def)
next
  fix g and node :: node and s ss and st :: tstate
  assume "indices st s = None"
  then have "edgeTargets g - insert s (dom (indices st))
        \<subset> (edgeTargets g \<union> set (s # ss)) - dom (indices st)"
    by auto
  moreover have "finite ((edgeTargets g \<union> set (s # ss)) - dom (indices st))"
    by (simp add: edgeTargets_def)
  ultimately have "card (edgeTargets g - insert s (dom (indices st)))
        < card ((edgeTargets g \<union> set (s # ss)) - dom (indices st))"
    by (rule psubset_card_mono[rotated])
  then show "(Inl (g, s, st), Inr (g, node, s # ss, st))
        \<in> inv_image (less_than <*lex*> less_than) tarjanMeasure"
    by (simp add: tarjanMeasure_def)
next
  fix g and node :: node and s ss and st x :: tstate
  assume "indices st s = None" "x = strongConnect g s st"
    and d: "strongConnect_visitSuccessors_dom (Inl (g, s, st))"
  have "(edgeTargets g \<union> set ss) - dom (indices x)
        \<subseteq> (edgeTargets g \<union> set (s # ss)) - dom (indices st)"
    using visited_grows_partial(1)[OF d] \<open>x = _\<close> by auto
  moreover have "finite ((edgeTargets g \<union> set (s # ss)) - dom (indices st))"
    by (simp add: edgeTargets_def)
  ultimately have "card ((edgeTargets g \<union> set ss) - dom (indices x))
        \<le> card ((edgeTargets g \<union> set (s # ss)) - dom (indices st))"
    by (rule card_mono[rotated])
  then show "(Inr (g, node, ss, lowerLink node (the (lowLinks x s)) x), Inr (g, node, s # ss, st))
        \<in> inv_image (less_than <*lex*> less_than) tarjanMeasure"
    by (auto simp: tarjanMeasure_def)
next
  fix g and node :: node and s ss and st :: tstate
  assume "indices st s \<noteq> None"
  then have "(edgeTargets g \<union> set ss) - dom (indices st)
        \<subseteq> (edgeTargets g \<union> set (s # ss)) - dom (indices st)"
    by auto
  moreover have "finite ((edgeTargets g \<union> set (s # ss)) - dom (indices st))"
    by (simp add: edgeTargets_def)
  ultimately have le: "card ((edgeTargets g \<union> set ss) - dom (indices st))
        \<le> card ((edgeTargets g \<union> set (s # ss)) - dom (indices st))"
    by (rule card_mono[rotated])
  show "(Inr (g, node, ss, lowerLink node (the (indices st s)) st), Inr (g, node, s # ss, st))
        \<in> inv_image (less_than <*lex*> less_than) tarjanMeasure"
    using le by (auto simp: tarjanMeasure_def)
  show "(Inr (g, node, ss, st), Inr (g, node, s # ss, st))
        \<in> inv_image (less_than <*lex*> less_than) tarjanMeasure"
    using le by (auto simp: tarjanMeasure_def)
qed


definition initialState :: tstate where
  "initialState = \<lparr>indices = Map.empty, lowLinks = Map.empty, onStack = {}, stack = [],
     sccs = [], index = 0\<rparr>"

definition visitRoot :: "graph \<Rightarrow> tstate \<Rightarrow> node \<Rightarrow> tstate" where
  "visitRoot g st node = (if indices st node = None then strongConnect g node st else st)"

definition findStronglyConnectedComponents :: "graph \<Rightarrow> node list list" where
  "findStronglyConnectedComponents g = sccs (foldl (visitRoot g) initialState (nodes g))"

datatype severity = Low | Medium | High | Critical

text \<open>
  A \<^verbatim>\<open>DependencyCycle\<close> without its description and its suggestions, which are
  text for the reader computed from the three fields kept here.
\<close>

record dependencyCycle =
  c_nodes :: "node list"
  c_length :: nat
  c_severity :: severity

definition affectedNodes :: "node list \<Rightarrow> graph \<Rightarrow> nat" where
  "affectedNodes cycle g =
     foldl (\<lambda>acc node. acc + length (filter (\<lambda>p. p \<notin> set cycle) (predecessors g node))) 0 cycle"

definition determineCycleSeverity :: "node list \<Rightarrow> graph \<Rightarrow> severity" where
  "determineCycleSeverity cycle g =
     (let len = length cycle; affected = affectedNodes cycle g
      in if len \<ge> 5 \<or> affected \<ge> 10 then Critical
         else if len \<ge> 4 \<or> affected \<ge> 5 then High
         else if len \<ge> 3 \<or> affected \<ge> 2 then Medium
         else Low)"

fun severityOrder :: "severity \<Rightarrow> nat" where
  "severityOrder Critical = 0"
| "severityOrder High = 1"
| "severityOrder Medium = 2"
| "severityOrder Low = 3"

definition mkCycle :: "graph \<Rightarrow> node list \<Rightarrow> dependencyCycle" where
  "mkCycle g scc = \<lparr>c_nodes = scc, c_length = length scc,
     c_severity = determineCycleSeverity scc g\<rparr>"

definition findCycles :: "graph \<Rightarrow> dependencyCycle list" where
  "findCycles g =
     sort_key (\<lambda>c. severityOrder (c_severity c)) (map (mkCycle g) (findStronglyConnectedComponents g))"

section \<open>Strings and paths\<close>

definition startsWith :: "string \<Rightarrow> string \<Rightarrow> bool" where
  "startsWith s p = (take (length p) s = p)"

fun splitOn :: "char \<Rightarrow> string \<Rightarrow> string list" where
  "splitOn c [] = [[]]"
| "splitOn c (x # xs) =
     (if x = c then [] # splitOn c xs
      else (case splitOn c xs of [] \<Rightarrow> [[x]] | y # ys \<Rightarrow> (x # y) # ys))"

fun joinWith :: "string \<Rightarrow> string list \<Rightarrow> string" where
  "joinWith sep [] = []"
| "joinWith sep [x] = x"
| "joinWith sep (x # y # ys) = x @ sep @ joinWith sep (y # ys)"

fun normalizeSegments :: "bool \<Rightarrow> string list \<Rightarrow> string list \<Rightarrow> string list" where
  "normalizeSegments allowAboveRoot [] res = res"
| "normalizeSegments allowAboveRoot (s # ss) res =
     (if s = [] \<or> s = ''.'' then normalizeSegments allowAboveRoot ss res
      else if s = ''..'' then
        (if res \<noteq> [] \<and> last res \<noteq> ''..'' then normalizeSegments allowAboveRoot ss (butlast res)
         else if allowAboveRoot then normalizeSegments allowAboveRoot ss (res @ [''..''])
         else normalizeSegments allowAboveRoot ss res)
      else normalizeSegments allowAboveRoot ss (res @ [s]))"

definition posix_normalize :: "string \<Rightarrow> string" where
  "posix_normalize p =
     (if p = [] then ''.''
      else (let isAbsolute = (hd p = CHR ''/'');
                trailingSeparator = (last p = CHR ''/'');
                s = joinWith ''/'' (normalizeSegments (\<not> isAbsolute) (splitOn CHR ''/'' p) [])
            in if s = [] then (if isAbsolute then ''/'' else if trailingSeparator then ''./'' else ''.'')
               else (let s' = (if trailingSeparator then s @ ''/'' else s)
                     in if isAbsolute then CHR ''/'' # s' else s')))"

definition posix_join :: "string list \<Rightarrow> string" where
  "posix_join args =
     (let parts = filter (\<lambda>a. a \<noteq> []) args
      in if parts = [] then ''.'' else posix_normalize (joinWith ''/'' parts))"

definition posix_dirname :: "string \<Rightarrow> string" where
  "posix_dirname p =
     (if p = [] then ''.''
      else (let hasRoot = (hd p = CHR ''/'');
                r = dropWhile (\<lambda>c. c \<noteq> CHR ''/'') (dropWhile (\<lambda>c. c = CHR ''/'') (rev (tl p)))
            in if r = [] then (if hasRoot then ''/'' else ''.'')
               else if hasRoot \<and> length r = 1 then ''//''
               else take (length r) p))"

definition posix_resolve :: "string \<Rightarrow> string \<Rightarrow> string" where
  "posix_resolve cwd p =
     (let full = (if p \<noteq> [] \<and> hd p = CHR ''/'' then p else cwd @ ''/'' @ p)
      in CHR ''/'' # joinWith ''/'' (normalizeSegments False (splitOn CHR ''/'' full) []))"


definition getShortName :: "string \<Rightarrow> string" where
  "getShortName path = (let l = last (splitOn CHR ''/'' path) in if l \<noteq> [] then l else path)"

section \<open>The Python dependency classifier\<close>

datatype dep_type = Internal | External | Builtin

record dependency =
  d_from :: string
  d_to :: string
  d_type :: dep_type
  packageName :: "string option"
  importStatements :: "string list"

definition pythonBuiltins :: "string list" where
  "pythonBuiltins = [
    ''abc'', ''aifc'', ''argparse'', ''array'', ''ast'', ''asynchat'', ''asyncio'',
    ''asyncore'', ''atexit'', ''audioop'', ''base64'', ''bdb'', ''binascii'', ''binhex'',
    ''bisect'', ''builtins'', ''bz2'', ''calendar'', ''cgi'', ''cgitb'', ''chunk'',
    ''cmath'', ''cmd'', ''code'', ''codecs'', ''codeop'', ''collections'', ''colorsys'',
    ''compileall'', ''concurrent'', ''configparser'', ''contextlib'', ''contextvars'',
    ''copy'', ''copyreg'', ''cProfile'', ''crypt'', ''csv'', ''ctypes'', ''curses'',
    ''dataclasses'', ''datetime'', ''dbm'', ''decimal'', ''difflib'', ''dis'',
    ''distutils'', ''doctest'', ''email'', ''encodings'', ''enum'', ''errno'',
    ''faulthandler'', ''fcntl'', ''filecmp'', ''fileinput'', ''fnmatch'', ''fractions'',
    ''ftplib'', ''functools'', ''gc'', ''getopt'', ''getpass'', ''gettext'', ''glob'',
    ''graphlib'', ''grp'', ''gzip'', ''hashlib'', ''heapq'', ''hmac'', ''html'', ''http'',
    ''idlelib'', ''imaplib'', ''imghdr'', ''imp'', ''importlib'', ''inspect'', ''io'',
    ''ipaddress'', ''itertools'', ''json'', ''keyword'', ''lib2to3'', ''linecache'',
    ''locale'', ''logging'', ''lzma'', ''mailbox'', ''mailcap'', ''marshal'', ''math'',
    ''mimetypes'', ''mmap'', ''modulefinder'', ''multiprocessing'', ''netrc'', ''nis'',
    ''nntplib'', ''numbers'', ''operator'', ''optparse'', ''os'', ''ossaudiodev'',
    ''parser'', ''pathlib'', ''pdb'', ''pickle'', ''pickletools'', ''pipes'', ''pkgutil'',
    ''platform'', ''plistlib'', ''poplib'', ''posix'', ''posixpath'', ''pprint'',
    ''profile'', ''pstats'', ''pty'', ''pwd'', ''py_compile'', ''pyclbr'', ''pydoc'',
    ''queue'', ''quopri'', ''random'', ''re'', ''readline'', ''reprlib'', ''resource'',
    ''rlcompleter'', ''runpy'', ''sched'', ''secrets'', ''select'', ''selectors'',
    ''shelve'', ''shlex'', ''shutil'', ''signal'', ''site'', ''smtpd'', ''smtplib'',
    ''sndhdr'', ''socket'', ''socketserver'', ''spwd'', ''sqlite3'', ''ssl'', ''stat'',
    ''statistics'', ''string'', ''stringprep'', ''struct'', ''subprocess'', ''sunau'',
    ''symbol'', ''symtable'', ''sys'', ''sysconfig'', ''syslog'', ''tabnanny'',
    ''tarfile'', ''telnetlib'', ''tempfile'', ''termios'', ''test'', ''textwrap'',
    ''threading'', ''time'', ''timeit'', ''tkinter'', ''token'', ''tokenize'', ''trace'',
    ''traceback'', ''tracemalloc'', ''tty'', ''turtle'', ''turtledemo'', ''types'',
    ''typing'', ''unicodedata'', ''unittest'', ''urllib'', ''uu'', ''uuid'', ''venv'',
    ''warnings'', ''wave'', ''weakref'', ''webbrowser'', ''winreg'', ''winsound'',
    ''wsgiref'', ''xdrlib'', ''xml'', ''xmlrpc'', ''zipapp'', ''zipfile'', ''zipimport'',
    ''zlib'', ''zoneinfo'']"

definition firstSegment :: "string \<Rightarrow> string" where
  "firstSegment moduleName = (case splitOn CHR ''.'' moduleName of [] \<Rightarrow> [] | b # _ \<Rightarrow> b)"

definition isPythonBuiltin :: "string \<Rightarrow> bool" where
  "isPythonBuiltin moduleName = (firstSegment moduleName \<in> set pythonBuiltins)"

text \<open>The loop that counts and strips the leading dots.\<close>

fun stripDots :: "nat \<Rightarrow> string \<Rightarrow> nat \<times> string" where
  "stripDots dots [] = (dots, [])"
| "stripDots dots (c # cs) = (if c = CHR ''.'' then stripDots (dots + 1) cs else (dots, c # cs))"

text \<open>\<^verbatim>\<open>for (let i = 1; i < dots; i++) targetDir = path.dirname(targetDir)\<close>\<close>

function goUp :: "nat \<Rightarrow> nat \<Rightarrow> string \<Rightarrow> string" where
  "goUp i dots targetDir =
     (if i < dots then goUp (i + 1) dots (posix_dirname targetDir) else targetDir)"
  by pat_completeness auto
termination
  by (relation "measure (\<lambda>(i, dots, t). dots - i)") auto

declare goUp.simps [simp del]

definition joinParts :: "string \<Rightarrow> string list \<Rightarrow> string" where
  "joinParts targetDir parts =
     foldl (\<lambda>resolvedPath part. if part \<noteq> [] then posix_join [resolvedPath, part] else resolvedPath)
       targetDir parts"

fun firstExisting :: "(string \<Rightarrow> bool) \<Rightarrow> string list \<Rightarrow> string \<Rightarrow> string" where
  "firstExisting existsSync [] finalPath = finalPath"
| "firstExisting existsSync (p # ps) finalPath =
     (if existsSync p then p else firstExisting existsSync ps finalPath)"

definition dotsToSlashes :: "string \<Rightarrow> string" where
  "dotsToSlashes s = map (\<lambda>c. if c = CHR ''.'' then CHR ''/'' else c) s"

definition classifyPythonDependency ::
  "(string \<Rightarrow> bool) \<Rightarrow> string \<Rightarrow> string \<Rightarrow> string \<Rightarrow> dependency" where
  "classifyPythonDependency existsSync importPath fromFile basePath =
     (let isRelative = startsWith importPath ''.'';
          isBuiltin = isPythonBuiltin importPath
      in if isBuiltin then
           \<lparr>d_from = fromFile, d_to = importPath, d_type = Builtin,
            packageName = Some importPath, importStatements = [importPath]\<rparr>
         else if isRelative then
           (let fromDir = posix_dirname fromFile;
                (dots, moduleName) = stripDots 0 importPath;
                targetDir = goUp 1 dots fromDir;
                resolvedPath = joinParts targetDir (splitOn CHR ''.'' moduleName);
                possiblePaths = [resolvedPath @ ''.py'', posix_join [resolvedPath, ''__init__.py'']];
                finalPath = firstExisting existsSync possiblePaths resolvedPath
            in \<lparr>d_from = fromFile, d_to = finalPath, d_type = Internal,
                packageName = None, importStatements = [importPath]\<rparr>)
         else
           (let p = dotsToSlashes importPath;
                possibleLocalPaths =
                  [posix_join [basePath, p @ ''.py''],
                   posix_join [basePath, p, ''__init__.py''],
                   posix_join [basePath, ''src'', p @ ''.py''],
                   posix_join [basePath, ''src'', p, ''__init__.py'']]
            in case find existsSync possibleLocalPaths of
                 Some localPath \<Rightarrow>
                   \<lparr>d_from = fromFile, d_to = localPath, d_type = Internal,
                    packageName = None, importStatements = [importPath]\<rparr>
               | None \<Rightarrow>
                   \<lparr>d_from = fromFile, d_to = importPath, d_type = External,
                    packageName = Some (firstSegment importPath),
                    importStatements = [importPath]\<rparr>))"

section \<open>Relationship extraction\<close>

datatype language = TypeScript | JavaScript | Python

definition probeExtensions :: "language \<Rightarrow> string list" where
  "probeExtensions lang =
     (if lang = Python then [''.py''] else [''.ts'', ''.tsx'', ''.js'', ''.jsx'', ''''])"

definition importRel :: "node \<Rightarrow> node \<Rightarrow> relationship" where
  "importRel file t = \<lparr>source = file, target = t, rtype = Import, weight = 1\<rparr>"

subsection \<open>circular-detector.ts\<close>

fun probeTargets :: "string set \<Rightarrow> node \<Rightarrow> string \<Rightarrow> string list \<Rightarrow> relationship list" where
  "probeTargets fileSet file resolvedTarget [] = []"
| "probeTargets fileSet file resolvedTarget (ext # exts) =
     (let withExt = resolvedTarget @ ext
      in if withExt \<in> fileSet then [importRel file withExt]
         else (let indexPath = posix_join [resolvedTarget, ''index'' @ ext]
               in if indexPath \<in> fileSet then [importRel file indexPath]
                  else probeTargets fileSet file resolvedTarget exts))"

definition cycleRelationshipsOf ::
  "string \<Rightarrow> language \<Rightarrow> string set \<Rightarrow> node \<Rightarrow> dependency \<Rightarrow> relationship list" where
  "cycleRelationshipsOf cwd lang fileSet file dep =
     (if d_type dep \<noteq> Internal then []
      else (let resolvedTarget = posix_resolve cwd (d_to dep)
            in if resolvedTarget \<in> fileSet then [importRel file resolvedTarget]
               else probeTargets fileSet file resolvedTarget (probeExtensions lang)))"

definition extractCycleRelationships ::
  "string \<Rightarrow> language \<Rightarrow> (node \<Rightarrow> dependency list) \<Rightarrow> node list \<Rightarrow> relationship list" where
  "extractCycleRelationships cwd lang deps files =
     (let fileSet = set (map (posix_resolve cwd) files)
      in concat (map (\<lambda>file. concat (map (cycleRelationshipsOf cwd lang fileSet file) (deps file)))
           files))"

subsection \<open>dependency-graph.ts\<close>

definition graphRelationshipsOf ::
  "string \<Rightarrow> language \<Rightarrow> bool \<Rightarrow> string set \<Rightarrow> node \<Rightarrow> dependency \<Rightarrow> relationship list" where
  "graphRelationshipsOf cwd lang includeExternal fileSet file dep =
     (if d_type dep = External \<and> \<not> includeExternal then []
      else if d_type dep = Builtin then []
      else if d_type dep = Internal then
        (let resolvedTarget = posix_resolve cwd (d_to dep)
         in if resolvedTarget \<notin> fileSet then
              (case find (\<lambda>ext. resolvedTarget @ ext \<in> fileSet) (probeExtensions lang) of
                 Some ext \<Rightarrow> [importRel file (resolvedTarget @ ext)]
               | None \<Rightarrow> if includeExternal then [importRel file (d_to dep)] else [])
            else [importRel file resolvedTarget])
      else if d_type dep = External \<and> includeExternal then
        [importRel file (case packageName dep of
                           None \<Rightarrow> d_to dep
                         | Some p \<Rightarrow> if p \<noteq> [] then p else d_to dep)]
      else [])"

definition extractRelationships ::
  "string \<Rightarrow> language \<Rightarrow> bool \<Rightarrow> (node \<Rightarrow> dependency list) \<Rightarrow> node list \<Rightarrow> relationship list" where
  "extractRelationships cwd lang includeExternal deps files =
     (let fileSet = set (map (posix_resolve cwd) files)
      in concat (map (\<lambda>file. concat (map (graphRelationshipsOf cwd lang includeExternal fileSet file)
           (deps file))) files))"

section \<open>detectCircularDependencies\<close>

record severitySummary =
  critical :: nat
  high :: nat
  medium :: nat
  low :: nat

text \<open>
  The result of the tool without its recommendations, which are sentences built from the
  counts below. Scanning the directory and parsing the files happen before: the model
  takes the file list and the dependencies parsed from each file as arguments.
\<close>

record detectOutput =
  hasCycles :: bool
  totalCycles :: nat
  cycles :: "dependencyCycle list"
  summary :: severitySummary
  affectedFiles :: "node list"

text \<open>
  \<^verbatim>\<open>xs.slice(0, n)\<close>: a negative \<open>n\<close> counts from the end of the array.
  \<^verbatim>\<open>slice\<close> first truncates its argument to an integer; \<open>n\<close> is that integer.
\<close>

definition sliceFromStart :: "'a list \<Rightarrow> int \<Rightarrow> 'a list" where
  "sliceFromStart xs n =
     (if n < 0 then take (length xs - nat (- n)) xs else take (nat n) xs)"

definition addToSet :: "node list \<Rightarrow> node \<Rightarrow> node list" where
  "addToSet acc n = (if n \<in> set acc then acc else acc @ [n])"

definition countSeverity :: "severity \<Rightarrow> dependencyCycle list \<Rightarrow> nat" where
  "countSeverity s cs = length (filter (\<lambda>c. c_severity c = s) cs)"

definition detectCircularDependencies ::
  "string \<Rightarrow> language \<Rightarrow> (node \<Rightarrow> dependency list) \<Rightarrow> node list \<Rightarrow> int \<Rightarrow> detectOutput" where
  "detectCircularDependencies cwd lang deps files maxCycles =
     (if files = [] then
        \<lparr>hasCycles = False, totalCycles = 0, cycles = [],
         summary = \<lparr>critical = 0, high = 0, medium = 0, low = 0\<rparr>, affectedFiles = []\<rparr>
      else
        (let relationships = extractCycleRelationships cwd lang deps files;
             graph = buildGraph relationships;
             allCycles = findCycles graph
         in \<lparr>hasCycles = (length allCycles > 0),
             totalCycles = length allCycles,
             cycles = sliceFromStart allCycles maxCycles,
             summary = \<lparr>critical = countSeverity Critical allCycles,
                        high = countSeverity High allCycles,
                        medium = countSeverity Medium allCycles,
                        low = countSeverity Low allCycles\<rparr>,
             affectedFiles = foldl (\<lambda>acc c. foldl addToSet acc (c_nodes c)) [] allCycles\<rparr>))"

section \<open>generateDependencyGraph\<close>

record jsonNode =
  jn_id :: string
  jn_label :: string
  jn_data :: "string option"

record jsonEdge =
  je_source :: string
  je_target :: string
  je_data :: "edge_label option"

record jsonGraph =
  j_nodes :: "jsonNode list"
  j_edges :: "jsonEdge list"

definition generateJsonGraph :: "graph \<Rightarrow> jsonGraph" where
  "generateJsonGraph g =
     \<lparr>j_nodes = map (\<lambda>n. \<lparr>jn_id = n, jn_label = getShortName n, jn_data = nodeLabel g n\<rparr>) (nodes g),
      j_edges = map (\<lambda>e. \<lparr>je_source = fst e, je_target = snd e, je_data = edgeLabel g e\<rparr>) (edges g)\<rparr>"

text \<open>
  The graph of \<^verbatim>\<open>generateDependencyGraph\<close>: \<^verbatim>\<open>buildGraph(relationships)\<close>, then
  the loop that makes every file a node.
\<close>

definition ensureFileNode :: "graph \<Rightarrow> node \<Rightarrow> graph" where
  "ensureFileNode g file = (if \<not> hasNode g file then setNode g file file else g)"

definition graphOfFiles :: "node list \<Rightarrow> relationship list \<Rightarrow> graph" where
  "graphOfFiles files relationships = foldl ensureFileNode (buildGraph relationships) files"

text \<open>
  The result of the tool in the JSON format: the graph before \<^verbatim>\<open>JSON.stringify\<close>,
  the number of files and the two cycle fields. The Mermaid rendering and the statistics
  are left out.
\<close>

record dependencyGraphOutput =
  dg_graph :: jsonGraph
  dg_files :: nat
  dg_hasCycles :: bool
  dg_cycleCount :: nat

definition generateDependencyGraph ::
  "string \<Rightarrow> language \<Rightarrow> bool \<Rightarrow> (node \<Rightarrow> dependency list) \<Rightarrow> node list \<Rightarrow> dependencyGraphOutput" where
  "generateDependencyGraph cwd lang includeExternal deps files =
     (if files = [] then
        \<lparr>dg_graph = \<lparr>j_nodes = [], j_edges = []\<rparr>, dg_files = 0, dg_hasCycles = False,
         dg_cycleCount = 0\<rparr>
      else
        (let relationships = extractRelationships cwd lang includeExternal deps files;
             graph = graphOfFiles files relationships;
             cycles = findCycles graph
         in \<lparr>dg_graph = generateJsonGraph graph, dg_files = length files,
             dg_hasCycles = (length cycles > 0), dg_cycleCount = length cycles\<rparr>))"

section \<open>Module mapper metrics\<close>

definition isWordChar :: "char \<Rightarrow> bool" where
  "isWordChar c =
     (c \<in> set ''abcdefghijklmnopqrstuvwxyzABCDEFGHIJKLMNOPQRSTUVWXYZ0123456789_'')"

definition lowerChar :: "char \<Rightarrow> char" where
  "lowerChar c =
     (let n = (of_char c :: nat) in if 65 \<le> n \<and> n \<le> 90 then char_of (n + 32) else c)"

definition wordAt :: "string \<Rightarrow> nat \<Rightarrow> string \<Rightarrow> bool" where
  "wordAt s i w =
     (i + length w \<le> length s
      \<and> map lowerChar (take (length w) (drop i s)) = w
      \<and> (i = 0 \<or> \<not> isWordChar (s ! (i - 1)))
      \<and> (i + length w = length s \<or> \<not> isWordChar (s ! (i + length w))))"

definition abstractWords :: "string list" where
  "abstractWords = [''interface'', ''abstract'', ''types'', ''type'', ''contracts'', ''contract'']"

definition matchesAbstractName :: "string \<Rightarrow> bool" where
  "matchesAbstractName file =
     list_ex (\<lambda>i. list_ex (wordAt file i) abstractWords) [0..<length file]"

record couplingMetrics =
  afferentCoupling :: nat
  efferentCoupling :: nat
  instability :: real
  abstractness :: nat
  distanceFromMainSequence :: real

definition couplingOf :: "relationship list \<Rightarrow> node \<Rightarrow> couplingMetrics" where
  "couplingOf relationships file =
     (let incoming = length (filter (\<lambda>r. target r = file) relationships);
          outgoing = length (filter (\<lambda>r. source r = file) relationships);
          total = incoming + outgoing;
          instab = (if total = 0 then 0 else real outgoing / real total);
          isAbstract = (if matchesAbstractName file then 1 else 0);
          distance = \<bar>real isAbstract + instab - 1\<bar>
      in \<lparr>afferentCoupling = incoming, efferentCoupling = outgoing, instability = instab,
          abstractness = isAbstract, distanceFromMainSequence = distance\<rparr>)"

definition calculateCouplingMetrics ::
  "node list \<Rightarrow> relationship list \<Rightarrow> (node \<rightharpoonup> couplingMetrics)" where
  "calculateCouplingMetrics files relationships =
     foldl (\<lambda>metrics file. metrics(file \<mapsto> couplingOf relationships file)) Map.empty files"

definition calculateGroupCohesion :: "node list \<Rightarrow> relationship list \<Rightarrow> real" where
  "calculateGroupCohesion groupFiles relationships =
     (if length groupFiles \<le> 1 then 1
      else (let groupSet = set groupFiles;
                internalRelationships =
                  length (filter (\<lambda>r. source r \<in> groupSet \<and> target r \<in> groupSet) relationships);
                maxRelationships = length groupFiles * (length groupFiles - 1)
            in if maxRelationships = 0 then 1
               else real internalRelationships / real maxRelationships))"

definition calculateGroupCoupling :: "node list \<Rightarrow> node list \<Rightarrow> relationship list \<Rightarrow> real" where
  "calculateGroupCoupling groupFiles allFiles relationships =
     (let groupSet = set groupFiles;
          otherFiles = filter (\<lambda>f. f \<notin> groupSet) allFiles
      in if length otherFiles = 0 then 0
         else (let externalRelationships =
                     length (filter (\<lambda>r. (source r \<in> groupSet \<and> target r \<notin> groupSet)
                                         \<or> (source r \<notin> groupSet \<and> target r \<in> groupSet)) relationships)
               in real externalRelationships / real (length groupFiles * length otherFiles + 1)))"

record moduleGroup =
  mg_name :: string
  mg_modules :: "node list"
  cohesion :: real
  coupling :: real

definition groupMetrics ::
  "(string \<times> node list) list \<Rightarrow> node list \<Rightarrow> relationship list \<Rightarrow> moduleGroup list" where
  "groupMetrics fileGroups files relationships =
     map (\<lambda>(name, groupFiles).
            \<lparr>mg_name = name, mg_modules = groupFiles,
             cohesion = calculateGroupCohesion groupFiles relationships,
             coupling = calculateGroupCoupling groupFiles files relationships\<rparr>) fileGroups"

section \<open>File complexity\<close>

text \<open>
  The two branches of \<^verbatim>\<open>analyzeFileComplexity\<close>. The parsers come first: the model
  takes the complexities of the functions found (for Python the file's complexity and its
  number of functions) and the number of code lines as arguments. Numbers are reals,
  \<^verbatim>\<open>Math.log\<close> is \<open>ln\<close>, and \<^verbatim>\<open>Math.round\<close> is \<open>round\<close>, which rounds a half up
  as the code does.
\<close>

record fileComplexity =
  cyclomaticComplexity :: nat
  functionCount :: nat
  linesOfCode :: nat
  maintainabilityIndex :: int

definition maintainability :: "real \<Rightarrow> nat \<Rightarrow> real" where
  "maintainability avgComplexity loc =
     max 0 (min 100
       (171 - 5.2 * ln (avgComplexity + 1) - 0.23 * avgComplexity - 16.2 * ln (real loc + 1)))"

definition calculateTsFileComplexity :: "nat list \<Rightarrow> nat \<Rightarrow> fileComplexity" where
  "calculateTsFileComplexity functions loc =
     (let totalComplexity = sum_list functions;
          avgComplexity = (if length functions > 0
                           then real totalComplexity / real (length functions) else 1)
      in \<lparr>cyclomaticComplexity = (if totalComplexity = 0 then 1 else totalComplexity),
          functionCount = length functions,
          linesOfCode = loc,
          maintainabilityIndex = round (maintainability avgComplexity loc)\<rparr>)"

definition calculatePyFileComplexity :: "nat \<Rightarrow> nat \<Rightarrow> nat \<Rightarrow> fileComplexity" where
  "calculatePyFileComplexity complexity funcCount loc =
     (let avgComplexity = (if funcCount > 0 then real complexity / real funcCount else 1)
      in \<lparr>cyclomaticComplexity = complexity,
          functionCount = funcCount,
          linesOfCode = loc,
          maintainabilityIndex = round (maintainability avgComplexity loc)\<rparr>)"

section \<open>isDAG\<close>

text \<open>
  \<^verbatim>\<open>isDAG\<close> is graphlib's \<^verbatim>\<open>alg.isAcyclic\<close>: it runs \<^verbatim>\<open>alg.topsort\<close> and
  answers false when that throws its \<^verbatim>\<open>CycleException\<close>. The topological sort
  is a depth-first search along predecessors from the sinks; it throws when it meets
  a node that is on the current path and when it has not reached every node. The
  exception is the value \<open>None\<close>.
\<close>

record topState =
  visited :: "node set"
  onPath :: "node set"
  results :: "node list"

definition enterVisit :: "node \<Rightarrow> topState \<Rightarrow> topState" where
  "enterVisit node st = st\<lparr>onPath := insert node (onPath st), visited := insert node (visited st)\<rparr>"

definition leaveVisit :: "node \<Rightarrow> topState \<Rightarrow> topState" where
  "leaveVisit node st = st\<lparr>onPath := onPath st - {node}, results := results st @ [node]\<rparr>"

function (domintros) visit :: "graph \<Rightarrow> node \<Rightarrow> topState \<Rightarrow> topState option"
  and visitEach :: "graph \<Rightarrow> node list \<Rightarrow> topState \<Rightarrow> topState option" where
  "visit g node st =
     (if node \<in> onPath st then None
      else if node \<notin> visited st then
        (case visitEach g (predecessors g node) (enterVisit node st) of
           None \<Rightarrow> None
         | Some st' \<Rightarrow> Some (leaveVisit node st'))
      else Some st)"
| "visitEach g [] st = Some st"
| "visitEach g (p # ps) st =
     (case visit g p st of None \<Rightarrow> None | Some st' \<Rightarrow> visitEach g ps st')"
  by pat_completeness auto

lemma visited_enterVisit [simp]: "visited (enterVisit node st) = insert node (visited st)"
  by (simp add: enterVisit_def)

lemma visited_leaveVisit [simp]: "visited (leaveVisit node st) = visited st"
  by (simp add: leaveVisit_def)

lemma topsort_visited_grows_partial:
  "visit_visitEach_dom (Inl (g, node, st)) \<Longrightarrow>
     visit g node st = Some st' \<Longrightarrow> visited st \<subseteq> visited st'"
  "visit_visitEach_dom (Inr (g, l, st)) \<Longrightarrow>
     visitEach g l st = Some st' \<Longrightarrow> visited st \<subseteq> visited st'"
proof (induction g node st and g l st arbitrary: st' and st' rule: visit_visitEach.pinduct)
  case (1 g node st)
  show ?case
  proof (cases "node \<in> onPath st \<or> node \<in> visited st")
    case True
    with 1(1,3) show ?thesis by (auto simp: visit.psimps split: if_splits)
  next
    case False
    with 1(1,3) obtain st1 where
      v: "visitEach g (predecessors g node) (enterVisit node st) = Some st1"
      and e: "st' = leaveVisit node st1"
      by (auto simp: visit.psimps split: option.splits)
    from 1(2)[OF _ _ v] False have "visited (enterVisit node st) \<subseteq> visited st1" by simp
    with e show ?thesis by auto
  qed
next
  case (2 g st)
  then show ?case by (simp add: visitEach.psimps)
next
  case (3 g p ps st)
  from 3(1,4) obtain st1 where v: "visit g p st = Some st1"
    and r: "visitEach g ps st1 = Some st'"
    by (auto simp: visitEach.psimps split: option.splits)
  from 3(2)[OF v] 3(3)[OF v r] show ?case by blast
qed

definition edgeSources :: "graph \<Rightarrow> node set" where
  "edgeSources g = fst ` set (edgeKeys g)"

lemma predecessors_subset_sources: "set (predecessors g v) \<subseteq> edgeSources g"
  by (auto simp: predecessors_def edgeSources_def)

definition topsortMeasure ::
  "(graph \<times> node \<times> topState) + (graph \<times> node list \<times> topState) \<Rightarrow> nat \<times> nat" where
  "topsortMeasure x =
     (case x of
        Inl (g, node, st) \<Rightarrow>
          (if node \<in> onPath st \<or> node \<in> visited st then (0, 0)
           else (card (edgeSources g - insert node (visited st)),
                 Suc (length (predecessors g node))))
      | Inr (g, l, st) \<Rightarrow> (card ((edgeSources g \<union> set l) - visited st), length l))"

termination visit
proof (relation "inv_image (less_than <*lex*> less_than) topsortMeasure")
  show "wf (inv_image (less_than <*lex*> less_than) topsortMeasure)"
    by (intro wf_inv_image wf_lex_prod wf_less_than)
next
  fix g and node :: node and st :: topState
  assume "node \<notin> onPath st" "node \<notin> visited st"
  moreover have "(edgeSources g \<union> set (predecessors g node)) - visited (enterVisit node st)
        = edgeSources g - insert node (visited st)"
    using predecessors_subset_sources[of g node] by auto
  ultimately show "(Inr (g, predecessors g node, enterVisit node st), Inl (g, node, st))
        \<in> inv_image (less_than <*lex*> less_than) topsortMeasure"
    by (simp add: topsortMeasure_def)
next
  fix g and p :: node and ps and st :: topState
  have fin: "finite ((edgeSources g \<union> set (p # ps)) - visited st)"
    by (simp add: edgeSources_def)
  show "(Inl (g, p, st), Inr (g, p # ps, st))
        \<in> inv_image (less_than <*lex*> less_than) topsortMeasure"
  proof (cases "p \<in> onPath st \<or> p \<in> visited st")
    case True
    then show ?thesis by (auto simp: topsortMeasure_def)
  next
    case False
    then have "edgeSources g - insert p (visited st)
        \<subset> (edgeSources g \<union> set (p # ps)) - visited st"
      by auto
    with fin have "card (edgeSources g - insert p (visited st))
        < card ((edgeSources g \<union> set (p # ps)) - visited st)"
      by (rule psubset_card_mono)
    with False show ?thesis by (simp add: topsortMeasure_def)
  qed
next
  fix g and p :: node and ps and st x2 :: topState
  assume v: "visit g p st = Some x2" and d: "visit_visitEach_dom (Inl (g, p, st))"
  have "(edgeSources g \<union> set ps) - visited x2 \<subseteq> (edgeSources g \<union> set (p # ps)) - visited st"
    using topsort_visited_grows_partial(1)[OF d v] by auto
  moreover have "finite ((edgeSources g \<union> set (p # ps)) - visited st)"
    by (simp add: edgeSources_def)
  ultimately have "card ((edgeSources g \<union> set ps) - visited x2)
        \<le> card ((edgeSources g \<union> set (p # ps)) - visited st)"
    by (rule card_mono[rotated])
  then show "(Inr (g, ps, x2), Inr (g, p # ps, st))
        \<in> inv_image (less_than <*lex*> less_than) topsortMeasure"
    by (auto simp: topsortMeasure_def)
qed

definition sinks :: "graph \<Rightarrow> node list" where
  "sinks g = filter (\<lambda>v. successors g v = []) (nodes g)"

definition topsort :: "graph \<Rightarrow> node list option" where
  "topsort g =
     (case visitEach g (sinks g) \<lparr>visited = {}, onPath = {}, results = []\<rparr> of
        None \<Rightarrow> None
      | Some st \<Rightarrow> if card (visited st) \<noteq> length (nodes g) then None else Some (results st))"

definition isAcyclic :: "graph \<Rightarrow> bool" where
  "isAcyclic g = (topsort g \<noteq> None)"

definition isDAG :: "graph \<Rightarrow> bool" where
  "isDAG g = isAcyclic g"

text \<open>The relationships with exactly one end inside a group.\<close>

definition crossingRelationships :: "node list \<Rightarrow> relationship list \<Rightarrow> relationship list" where
  "crossingRelationships groupFiles rels =
     filter (\<lambda>r. (source r \<in> set groupFiles) \<noteq> (target r \<in> set groupFiles)) rels"

section \<open>Auxiliary definitions for the claims\<close>

text \<open>All cycles \<^verbatim>\<open>detectCircularDependencies\<close> finds, before it truncates them.\<close>

definition detectedCycles ::
  "string \<Rightarrow> language \<Rightarrow> (node \<Rightarrow> dependency list) \<Rightarrow> node list \<Rightarrow> dependencyCycle list" where
  "detectedCycles cwd lang deps files =
     findCycles (buildGraph (extractCycleRelationships cwd lang deps files))"

text \<open>
  Four files forming two cycles: each of the first two imports the other, and so do the
  last two.
\<close>

definition twoCycleDeps :: "node \<Rightarrow> dependency list" where
  "twoCycleDeps file =
     (if file = ''/a.ts'' then
        [\<lparr>d_from = ''/a.ts'', d_to = ''/b.ts'', d_type = Internal, packageName = None,
          importStatements = [''./b.ts'']\<rparr>]
      else if file = ''/b.ts'' then
        [\<lparr>d_from = ''/b.ts'', d_to = ''/a.ts'', d_type = Internal, packageName = None,
          importStatements = [''./a.ts'']\<rparr>]
      else if file = ''/c.ts'' then
        [\<lparr>d_from = ''/c.ts'', d_to = ''/d.ts'', d_type = Internal, packageName = None,
          importStatements = [''./d.ts'']\<rparr>]
      else if file = ''/d.ts'' then
        [\<lparr>d_from = ''/d.ts'', d_to = ''/c.ts'', d_type = Internal, packageName = None,
          importStatements = [''./c.ts'']\<rparr>]
      else [])"

definition twoCycleFiles :: "node list" where
  "twoCycleFiles = [''/a.ts'', ''/b.ts'', ''/c.ts'', ''/d.ts'']"

text \<open>A file system with one Python module.\<close>

definition demoFs :: "string \<Rightarrow> bool" where
  "demoFs p = (p = ''/proj/pkg/utils.py'')"

text \<open>The closed form of the relative branch: the dots counted, the probes spelled out.\<close>

definition leadingDots :: "string \<Rightarrow> nat" where
  "leadingDots importPath = length (takeWhile (\<lambda>c. c = CHR ''.'') importPath)"

definition probePython :: "(string \<Rightarrow> bool) \<Rightarrow> string \<Rightarrow> string" where
  "probePython existsSync resolvedPath =
     (if existsSync (resolvedPath @ ''.py'') then resolvedPath @ ''.py''
      else if existsSync (posix_join [resolvedPath, ''__init__.py''])
      then posix_join [resolvedPath, ''__init__.py'']
      else resolvedPath)"

text \<open>
  The specification's reading of the relative branch: one directory up per leading dot.
\<close>

definition specRelativeTarget :: "(string \<Rightarrow> bool) \<Rightarrow> string \<Rightarrow> string \<Rightarrow> string" where
  "specRelativeTarget existsSync importPath fromFile =
     probePython existsSync
       (joinParts ((posix_dirname ^^ leadingDots importPath) (posix_dirname fromFile))
          (splitOn CHR ''.'' (dropWhile (\<lambda>c. c = CHR ''.'') importPath)))"

text \<open>
  The specification's formula: the unrounded clamp, with the total complexity standing
  in for the average when the file has no functions.
\<close>

definition specMaintainabilityIndex :: "nat \<Rightarrow> nat \<Rightarrow> nat \<Rightarrow> real" where
  "specMaintainabilityIndex totalComplexity funcCount loc =
     (let avgComplexity = (if funcCount > 0 then real totalComplexity / real funcCount
                           else real totalComplexity)
      in max 0 (min 100
           (171 - 5.2 * ln (avgComplexity + 1) - 0.23 * avgComplexity - 16.2 * ln (real loc + 1))))"

text \<open>One file importing a sibling and a package.\<close>

definition demoGraphDeps :: "node \<Rightarrow> dependency list" where
  "demoGraphDeps file =
     (if file = ''/w/a.ts'' then
        [\<lparr>d_from = ''/w/a.ts'', d_to = ''/w/b'', d_type = Internal, packageName = None,
          importStatements = [''./b'']\<rparr>,
         \<lparr>d_from = ''/w/a.ts'', d_to = ''react'', d_type = External,
          packageName = Some ''react'', importStatements = [''react'']\<rparr>]
      else [])"

text \<open>The flag \<^verbatim>\<open>hasCycles\<close> of the tools: \<^verbatim>\<open>cycles.length > 0\<close>.\<close>

definition hasCycle :: "graph \<Rightarrow> bool" where
  "hasCycle g = (length (findCycles g) > 0)"

section \<open>Graphs, reachability and the invariants of the depth-first searches\<close>

text \<open>
  A graph is well formed when its node keys are distinct and every edge joins two of its
  nodes, as \<^verbatim>\<open>setNode\<close> and \<^verbatim>\<open>setEdge\<close> keep it.
\<close>

definition wf_graph :: "graph \<Rightarrow> bool" where
  "wf_graph g =
     (distinct (nodeKeys g)
      \<and> (\<forall>e\<in>set (edgeKeys g). fst e \<in> set (nodeKeys g) \<and> snd e \<in> set (nodeKeys g)))"

text \<open>
  The component of a node is the set of nodes reachable from it that reach it back: its
  strongly connected component.
\<close>

definition edgeSet :: "graph \<Rightarrow> (node \<times> node) set" where
  "edgeSet g = set (edgeKeys g)"

definition reachable :: "graph \<Rightarrow> node \<Rightarrow> node \<Rightarrow> bool" where
  "reachable g x y = ((x, y) \<in> (edgeSet g)\<^sup>*)"

definition component :: "graph \<Rightarrow> node \<Rightarrow> node set" where
  "component g x = {y. reachable g x y \<and> reachable g y x}"

text \<open>The index and the low-link of a visited node.\<close>

definition num :: "tstate \<Rightarrow> node \<Rightarrow> nat" where
  "num st v = the (indices st v)"

definition lnk :: "tstate \<Rightarrow> node \<Rightarrow> nat" where
  "lnk st v = the (lowLinks st v)"

text \<open>
  The invariant of the search. The stack holds visited nodes, each once, newest on top
  with the largest index; a node lower in the stack reaches every node above it; the
  visited nodes that left the stack have all their edges among themselves; every
  component recorded so far is a strongly connected component of at least two nodes that
  left the stack, and every node that left the stack and is not alone in its component
  is in a recorded one.
\<close>

definition wf_state :: "tstate \<Rightarrow> bool" where
  "wf_state st =
     (onStack st = set (stack st) \<and> distinct (stack st)
      \<and> set (stack st) \<subseteq> dom (indices st)
      \<and> dom (lowLinks st) = dom (indices st)
      \<and> (\<forall>v n. indices st v = Some n \<longrightarrow> n < index st)
      \<and> sorted_wrt (\<lambda>x y. num st y < num st x) (stack st))"

definition stack_reach :: "graph \<Rightarrow> tstate \<Rightarrow> bool" where
  "stack_reach g st =
     (\<forall>x\<in>set (stack st). \<forall>y\<in>set (stack st). num st x \<le> num st y \<longrightarrow> reachable g x y)"

definition finished :: "tstate \<Rightarrow> node set" where
  "finished st = dom (indices st) - set (stack st)"

definition finished_closed :: "graph \<Rightarrow> tstate \<Rightarrow> bool" where
  "finished_closed g st = (\<forall>x\<in>finished st. \<forall>w. (x, w) \<in> edgeSet g \<longrightarrow> w \<in> finished st)"

definition sccs_sound :: "graph \<Rightarrow> tstate \<Rightarrow> bool" where
  "sccs_sound g st =
     (distinct (map set (sccs st))
      \<and> (\<forall>c\<in>set (sccs st). 2 \<le> length c \<and> distinct c \<and> set c \<subseteq> finished st
            \<and> (\<exists>x\<in>set c. set c = component g x)))"

definition sccs_complete :: "graph \<Rightarrow> tstate \<Rightarrow> bool" where
  "sccs_complete g st =
     (\<forall>x\<in>finished st. (\<exists>y. y \<noteq> x \<and> y \<in> component g x) \<longrightarrow> (\<exists>c\<in>set (sccs st). x \<in> set c))"

definition tarjan_inv :: "graph \<Rightarrow> tstate \<Rightarrow> bool" where
  "tarjan_inv g st =
     (wf_state st \<and> stack_reach g st \<and> finished_closed g st \<and> sccs_sound g st
      \<and> sccs_complete g st)"

text \<open>What a call leaves untouched; the nodes in \<open>X\<close> may get a new low-link.\<close>

definition frame :: "node set \<Rightarrow> tstate \<Rightarrow> tstate \<Rightarrow> bool" where
  "frame X st st' =
     ((\<forall>x\<in>dom (indices st). indices st' x = indices st x)
      \<and> (\<forall>x\<in>dom (indices st) - X. lowLinks st' x = lowLinks st x)
      \<and> (\<exists>N. stack st' = N @ stack st \<and> set N \<inter> dom (indices st) = {})
      \<and> (\<exists>cs. sccs st' = sccs st @ cs))"

definition above :: "node \<Rightarrow> tstate \<Rightarrow> node set" where
  "above v st = set (takeWhile (\<lambda>x. x \<noteq> v) (stack st))"

text \<open>The edges out of \<open>u\<close> lead to visited nodes, and not below the low-link of \<open>v\<close>.\<close>

definition edges_ok :: "graph \<Rightarrow> tstate \<Rightarrow> node \<Rightarrow> node \<Rightarrow> node \<Rightarrow> bool" where
  "edges_ok g st v u w =
     ((u, w) \<in> edgeSet g \<longrightarrow>
        w \<in> dom (indices st) \<and> (w \<in> set (stack st) \<longrightarrow> lnk st v \<le> num st w))"

text \<open>
  \<^verbatim>\<open>strongConnect\<close> is called on an unvisited node that every node of the stack
  reaches. While the loop over its successors runs, every node of the stack reaches the
  node, the low-link of the node is the index of a node of the stack that the node
  reaches, and the edges out of the node (those already handled) and out of the nodes
  above it respect the low-link. On return either the node and everything above it has
  left the stack, or the node stays with a low-link below its index.
\<close>

definition pre_sc :: "graph \<Rightarrow> node \<Rightarrow> tstate \<Rightarrow> bool" where
  "pre_sc g v st =
     (tarjan_inv g st \<and> v \<notin> dom (indices st) \<and> (\<forall>x\<in>set (stack st). reachable g x v))"

definition loop_inv :: "graph \<Rightarrow> node \<Rightarrow> node list \<Rightarrow> tstate \<Rightarrow> bool" where
  "loop_inv g v ss st =
     (tarjan_inv g st \<and> v \<in> set (stack st) \<and> set ss \<subseteq> set (successors g v)
      \<and> (\<forall>x\<in>set (stack st). reachable g x v)
      \<and> lnk st v \<le> num st v
      \<and> (\<exists>w\<in>set (stack st). num st w = lnk st v \<and> reachable g v w)
      \<and> (\<forall>u\<in>above v st. \<forall>w. edges_ok g st v u w)
      \<and> (\<forall>w. w \<notin> set ss \<longrightarrow> edges_ok g st v v w))"

definition post_sc :: "graph \<Rightarrow> node \<Rightarrow> tstate \<Rightarrow> tstate \<Rightarrow> bool" where
  "post_sc g v st st' =
     (tarjan_inv g st' \<and> frame {} st st' \<and> indices st' v = Some (index st)
      \<and> (stack st' = stack st \<and> lnk st' v = index st
          \<or> (\<exists>N. stack st' = N @ v # stack st
                \<and> lnk st' v < index st
                \<and> (\<exists>w\<in>set (stack st). num st w = lnk st' v \<and> reachable g v w)
                \<and> (\<forall>u\<in>set (N @ [v]). reachable g u v)
                \<and> (\<forall>u\<in>set (N @ [v]). \<forall>w. edges_ok g st' v u w))))"

definition post_vs :: "graph \<Rightarrow> node \<Rightarrow> tstate \<Rightarrow> tstate \<Rightarrow> bool" where
  "post_vs g v st st' = (loop_inv g v [] st' \<and> frame {v} st st')"

text \<open>The state after the loop over all nodes.\<close>

definition finalState :: "graph \<Rightarrow> tstate" where
  "finalState g = foldl (visitRoot g) initialState (nodes g)"

text \<open>
  The topological sort keeps the finished nodes in \<^verbatim>\<open>results\<close>, every node
  after all its predecessors.
\<close>

definition top_inv :: "graph \<Rightarrow> topState \<Rightarrow> bool" where
  "top_inv g st =
     (set (results st) = visited st - onPath st
      \<and> (\<forall>ys y zs. results st = ys @ y # zs \<longrightarrow> (\<forall>p. (p, y) \<in> edgeSet g \<longrightarrow> p \<in> set ys))
      \<and> visited st \<subseteq> set (nodeKeys g))"

definition top_frame :: "topState \<Rightarrow> topState \<Rightarrow> bool" where
  "top_frame st st' =
     (onPath st' = onPath st \<and> visited st \<subseteq> visited st' \<and> (\<exists>r. results st' = results st @ r))"

section \<open>Facts about the graph builder\<close>

lemma hasNode_setNode [simp]: "hasNode (setNode g v l) u = (u = v \<or> hasNode g u)"
  by (auto simp: setNode_def hasNode_def)

lemma edgeKeys_setNode [simp]: "edgeKeys (setNode g v l) = edgeKeys g"
  by (simp add: setNode_def)

lemma edgeLabel_setNode [simp]: "edgeLabel (setNode g v l) = edgeLabel g"
  by (simp add: setNode_def)

lemma edgeKeys_ensureNode [simp]: "edgeKeys (ensureNode g v) = edgeKeys g"
  by (simp add: ensureNode_def)

lemma edgeLabel_ensureNode [simp]: "edgeLabel (ensureNode g v) = edgeLabel g"
  by (simp add: ensureNode_def)

lemma set_nodeKeys_setNode [simp]:
  "set (nodeKeys (setNode g v l)) = insert v (set (nodeKeys g))"
  by (auto simp: setNode_def hasNode_def)

lemma set_nodeKeys_ensureNode [simp]:
  "set (nodeKeys (ensureNode g v)) = insert v (set (nodeKeys g))"
  by (auto simp: ensureNode_def hasNode_def)

lemma distinct_nodeKeys_setNode [simp]:
  "distinct (nodeKeys (setNode g v l)) = distinct (nodeKeys g)"
  by (auto simp: setNode_def hasNode_def)

lemma distinct_nodeKeys_ensureNode [simp]:
  "distinct (nodeKeys (ensureNode g v)) = distinct (nodeKeys g)"
  by (auto simp: ensureNode_def hasNode_def)

lemma set_edgeKeys_setEdge [simp]:
  "set (edgeKeys (setEdge g v w l)) = insert (v, w) (set (edgeKeys g))"
  by (auto simp: setEdge_def Let_def)

lemma distinct_edgeKeys_setEdge [simp]:
  "distinct (edgeKeys (setEdge g v w l)) = distinct (edgeKeys g)"
  by (auto simp: setEdge_def Let_def)

lemma edgeLabel_setEdge [simp]:
  "edgeLabel (setEdge g v w l) = (edgeLabel g)((v, w) \<mapsto> l)"
  by (simp add: setEdge_def Let_def)

lemma set_nodeKeys_setEdge:
  "(v, w) \<notin> set (edgeKeys g) \<Longrightarrow>
     set (nodeKeys (setEdge g v w l)) = insert v (insert w (set (nodeKeys g)))"
  by (auto simp: setEdge_def Let_def)

lemma edgeKeys_addRelationship [simp]:
  "set (edgeKeys (addRelationship g r)) = insert (source r, target r) (set (edgeKeys g))"
  by (simp add: addRelationship_def Let_def)

lemma distinct_edgeKeys_addRelationship [simp]:
  "distinct (edgeKeys (addRelationship g r)) = distinct (edgeKeys g)"
  by (simp add: addRelationship_def Let_def)

lemma edgeLabel_addRelationship [simp]:
  "edgeLabel (addRelationship g r) =
     (edgeLabel g)((source r, target r) \<mapsto> \<lparr>el_type = rtype r, el_weight = weight r\<rparr>)"
  by (simp add: addRelationship_def Let_def)

lemma foldl_addRelationship_edgeKeys:
  "set (edgeKeys (foldl addRelationship g rs)) =
     set (edgeKeys g) \<union> (\<lambda>r. (source r, target r)) ` set rs"
  by (induction rs arbitrary: g) auto

lemma foldl_addRelationship_distinct:
  "distinct (edgeKeys (foldl addRelationship g rs)) = distinct (edgeKeys g)"
  by (induction rs arbitrary: g) auto

lemma foldl_addRelationship_snoc:
  "foldl addRelationship g (rs @ [r]) = addRelationship (foldl addRelationship g rs) r"
  by simp

lemma edgeLabel_foldl_addRelationship:
  "edgeLabel (foldl addRelationship g rs) (v, w) =
     (let ms = filter (\<lambda>x. source x = v \<and> target x = w) rs
      in if ms = [] then edgeLabel g (v, w)
         else Some \<lparr>el_type = rtype (last ms), el_weight = weight (last ms)\<rparr>)"
proof (induction rs rule: rev_induct)
  case Nil
  then show ?case by simp
next
  case (snoc r rs)
  show ?case
  proof (cases "source r = v \<and> target r = w")
    case True
    then show ?thesis by (simp add: Let_def)
  next
    case False
    then have "(source r, target r) \<noteq> (v, w)" by auto
    with False snoc show ?thesis by (auto simp: Let_def)
  qed
qed

lemma count_list_distinct_member:
  "distinct xs \<Longrightarrow> x \<in> set xs \<Longrightarrow> count_list xs x = 1"
  by (induction xs) (auto simp: count_list_0_iff)

section \<open>Claims about the graph builder\<close>

text \<open>
  C5, as the specification states it: relationships with the same source and target
  collapse into one edge whose weight is the sum of their weights. The builder calls
  \<^verbatim>\<open>setEdge\<close> for each relationship and \<^verbatim>\<open>setEdge\<close> replaces the label of an
  existing edge, so two relationships of weights 2 and 3 leave one edge of weight 3,
  not 5.
\<close>

theorem buildGraph_weight_sum_counterexample:
  "edges (buildGraph
      [\<lparr>source = ''a'', target = ''b'', rtype = Import, weight = 2\<rparr>,
       \<lparr>source = ''a'', target = ''b'', rtype = Import, weight = 3\<rparr>]) = [(''a'', ''b'')]
   \<and> edgeWeight (buildGraph
      [\<lparr>source = ''a'', target = ''b'', rtype = Import, weight = 2\<rparr>,
       \<lparr>source = ''a'', target = ''b'', rtype = Import, weight = 3\<rparr>]) ''a'' ''b'' = Some 3
   \<and> edgeWeight (buildGraph
      [\<lparr>source = ''a'', target = ''b'', rtype = Import, weight = 2\<rparr>,
       \<lparr>source = ''a'', target = ''b'', rtype = Import, weight = 3\<rparr>]) ''a'' ''b'' \<noteq> Some (2 + 3)"
  by (simp add: buildGraph_def addRelationship_def setEdge_def setNode_def ensureNode_def
      hasNode_def emptyGraph_def edges_def edgeWeight_def Let_def)

text \<open>
  C5, amended: relationships with the same source and target collapse into one edge,
  and that edge carries the weight of the last of them in the relationship list.
\<close>

theorem buildGraph_collapses_to_last:
  assumes "r \<in> set rels"
  shows "count_list (edges (buildGraph rels)) (source r, target r) = 1
    \<and> edgeWeight (buildGraph rels) (source r) (target r) =
        Some (weight (last (filter (\<lambda>x. source x = source r \<and> target x = target r) rels)))"
proof -
  have "distinct (edgeKeys (buildGraph rels))"
    by (simp add: buildGraph_def foldl_addRelationship_distinct emptyGraph_def)
  moreover have "(source r, target r) \<in> set (edgeKeys (buildGraph rels))"
    using assms by (auto simp: buildGraph_def foldl_addRelationship_edgeKeys)
  ultimately have one: "count_list (edges (buildGraph rels)) (source r, target r) = 1"
    by (simp add: edges_def count_list_distinct_member)
  from assms have "filter (\<lambda>x. source x = source r \<and> target x = target r) rels \<noteq> []"
    by (auto simp: filter_empty_conv)
  then have "edgeWeight (buildGraph rels) (source r) (target r) =
      Some (weight (last (filter (\<lambda>x. source x = source r \<and> target x = target r) rels)))"
    by (simp add: edgeWeight_def buildGraph_def edgeLabel_foldl_addRelationship Let_def)
  with one show ?thesis by simp
qed

theorem buildGraph_collapses_to_last_witness:
  "count_list (edges (buildGraph
      [\<lparr>source = ''a'', target = ''b'', rtype = Import, weight = 2\<rparr>,
       \<lparr>source = ''a'', target = ''b'', rtype = Import, weight = 3\<rparr>])) (''a'', ''b'') = 1
   \<and> edgeWeight (buildGraph
      [\<lparr>source = ''a'', target = ''b'', rtype = Import, weight = 2\<rparr>,
       \<lparr>source = ''a'', target = ''b'', rtype = Import, weight = 3\<rparr>]) ''a'' ''b'' = Some 3"
  using buildGraph_collapses_to_last
    [of "\<lparr>source = ''a'', target = ''b'', rtype = Import, weight = 3\<rparr>"
        "[\<lparr>source = ''a'', target = ''b'', rtype = Import, weight = 2\<rparr>,
          \<lparr>source = ''a'', target = ''b'', rtype = Import, weight = 3\<rparr>]"]
  by simp

section \<open>Claims about the module mapper\<close>

lemma calculateCouplingMetrics_lookup:
  "calculateCouplingMetrics files rels file =
     (if file \<in> set files then Some (couplingOf rels file) else None)"
proof -
  have "foldl (\<lambda>metrics f. metrics(f \<mapsto> couplingOf rels f)) m files file =
      (if file \<in> set files then Some (couplingOf rels file) else m file)" for m
    by (induction files arbitrary: m) auto
  then show ?thesis by (simp add: calculateCouplingMetrics_def)
qed

lemma instability_bounds:
  "0 \<le> instability (couplingOf rels file) \<and> instability (couplingOf rels file) \<le> 1"
  by (simp add: couplingOf_def Let_def divide_le_eq)

text \<open>
  C8: for every node of the coupling metrics, instability is
  efferent / (afferent + efferent) when the node has a relationship and 0 when it has
  none; abstractness is 0 or 1; the distance from the main sequence is
  |abstractness + instability - 1|; instability and distance lie in [0, 1].
\<close>

theorem coupling_metrics_bounds:
  assumes "calculateCouplingMetrics files rels file = Some m"
  shows "afferentCoupling m = length (filter (\<lambda>r. target r = file) rels)
    \<and> efferentCoupling m = length (filter (\<lambda>r. source r = file) rels)
    \<and> instability m =
        (if afferentCoupling m + efferentCoupling m = 0 then 0
         else real (efferentCoupling m) / real (afferentCoupling m + efferentCoupling m))
    \<and> 0 \<le> instability m \<and> instability m \<le> 1
    \<and> (abstractness m = 0 \<or> abstractness m = 1)
    \<and> distanceFromMainSequence m = \<bar>real (abstractness m) + instability m - 1\<bar>
    \<and> 0 \<le> distanceFromMainSequence m \<and> distanceFromMainSequence m \<le> 1"
proof -
  from assms have m: "m = couplingOf rels file"
    by (simp add: calculateCouplingMetrics_lookup split: if_splits)
  have ib: "0 \<le> instability m" "instability m \<le> 1"
    using instability_bounds[of rels "file"] m by simp_all
  have ab: "abstractness m = 0 \<or> abstractness m = 1"
    by (simp add: m couplingOf_def Let_def)
  have d: "distanceFromMainSequence m = \<bar>real (abstractness m) + instability m - 1\<bar>"
    by (simp add: m couplingOf_def Let_def)
  have db: "0 \<le> distanceFromMainSequence m" "distanceFromMainSequence m \<le> 1"
    using ab ib unfolding d by auto
  have c: "afferentCoupling m = length (filter (\<lambda>r. target r = file) rels)"
    "efferentCoupling m = length (filter (\<lambda>r. source r = file) rels)"
    by (simp_all add: m couplingOf_def Let_def)
  have i: "instability m =
        (if afferentCoupling m + efferentCoupling m = 0 then 0
         else real (efferentCoupling m) / real (afferentCoupling m + efferentCoupling m))"
    by (simp add: m couplingOf_def Let_def)
  from c i ib ab d db show ?thesis by blast
qed

theorem coupling_metrics_bounds_witness:
  "calculateCouplingMetrics [''a.ts'', ''b.ts''] [importRel ''a.ts'' ''b.ts''] ''a.ts''
     = Some (couplingOf [importRel ''a.ts'' ''b.ts''] ''a.ts'')
   \<and> instability (couplingOf [importRel ''a.ts'' ''b.ts''] ''a.ts'') = 1
   \<and> instability (couplingOf [importRel ''a.ts'' ''b.ts''] ''a.ts'') \<le> 1
   \<and> 0 \<le> distanceFromMainSequence (couplingOf [importRel ''a.ts'' ''b.ts''] ''a.ts'')
   \<and> distanceFromMainSequence (couplingOf [importRel ''a.ts'' ''b.ts''] ''a.ts'') \<le> 1"
proof -
  have e: "calculateCouplingMetrics [''a.ts'', ''b.ts''] [importRel ''a.ts'' ''b.ts''] ''a.ts''
     = Some (couplingOf [importRel ''a.ts'' ''b.ts''] ''a.ts'')"
    by (simp add: calculateCouplingMetrics_def)
  have i: "instability (couplingOf [importRel ''a.ts'' ''b.ts''] ''a.ts'') = 1"
    by (simp add: couplingOf_def importRel_def Let_def)
  from coupling_metrics_bounds[OF e] e i show ?thesis
    by blast
qed

text \<open>
  C6, as the specification states it: a group of one file has cohesion 1 and external
  coupling 0, however many relationships cross its boundary. The coupling of a group is
  computed the same way for every group size, so one crossing relationship and one
  outside file give 1/2.
\<close>

theorem single_file_group_coupling_counterexample:
  "length (mg_modules (hd (groupMetrics [(''root'', [''/a.ts'']), (''lib'', [''/lib/b.ts''])]
       [''/a.ts'', ''/lib/b.ts''] [importRel ''/a.ts'' ''/lib/b.ts'']))) = 1
   \<and> coupling (hd (groupMetrics [(''root'', [''/a.ts'']), (''lib'', [''/lib/b.ts''])]
       [''/a.ts'', ''/lib/b.ts''] [importRel ''/a.ts'' ''/lib/b.ts''])) = 1 / 2
   \<and> coupling (hd (groupMetrics [(''root'', [''/a.ts'']), (''lib'', [''/lib/b.ts''])]
       [''/a.ts'', ''/lib/b.ts''] [importRel ''/a.ts'' ''/lib/b.ts''])) \<noteq> 0"
  by (simp add: groupMetrics_def calculateGroupCoupling_def importRel_def Let_def)

text \<open>
  C6, amended: a group of one file has cohesion 1, and its external coupling is the
  number of relationships crossing its boundary divided by the number of files outside
  the group plus one (0 when there is no file outside the group).
\<close>

theorem single_file_group_metrics:
  assumes "grp \<in> set (groupMetrics fileGroups files rels)"
    and "length (mg_modules grp) = 1"
  shows "cohesion grp = 1
    \<and> coupling grp =
        (if filter (\<lambda>f. f \<notin> set (mg_modules grp)) files = [] then 0
         else real (length (crossingRelationships (mg_modules grp) rels))
              / real (length (filter (\<lambda>f. f \<notin> set (mg_modules grp)) files) + 1))"
proof -
  from assms(1) obtain name gf where
    g: "grp = \<lparr>mg_name = name, mg_modules = gf,
             cohesion = calculateGroupCohesion gf rels,
             coupling = calculateGroupCoupling gf files rels\<rparr>"
    by (auto simp: groupMetrics_def)
  from assms(2) g have l: "length gf = 1" by simp
  have c: "cohesion grp = 1"
    using l by (simp add: g calculateGroupCohesion_def)
  have cr: "(\<lambda>r. (source r \<in> set gf \<and> target r \<notin> set gf) \<or> (source r \<notin> set gf \<and> target r \<in> set gf))
      = (\<lambda>r. (source r \<in> set gf) \<noteq> (target r \<in> set gf))"
    by auto
  have "coupling grp =
        (if filter (\<lambda>f. f \<notin> set gf) files = [] then 0
         else real (length (crossingRelationships gf rels))
              / real (length (filter (\<lambda>f. f \<notin> set gf) files) + 1))"
    using l by (simp add: g calculateGroupCoupling_def crossingRelationships_def Let_def cr)
  with c g show ?thesis by simp
qed

theorem single_file_group_metrics_witness:
  "cohesion (hd (groupMetrics [(''root'', [''/a.ts'']), (''lib'', [''/lib/b.ts''])]
       [''/a.ts'', ''/lib/b.ts''] [importRel ''/a.ts'' ''/lib/b.ts''])) = 1
   \<and> coupling (hd (groupMetrics [(''root'', [''/a.ts'']), (''lib'', [''/lib/b.ts''])]
       [''/a.ts'', ''/lib/b.ts''] [importRel ''/a.ts'' ''/lib/b.ts''])) = 1 / 2"
proof -
  let ?gs = "groupMetrics [(''root'', [''/a.ts'']), (''lib'', [''/lib/b.ts''])]
       [''/a.ts'', ''/lib/b.ts''] [importRel ''/a.ts'' ''/lib/b.ts'']"
  have m: "hd ?gs \<in> set ?gs" by (simp add: groupMetrics_def)
  have l: "length (mg_modules (hd ?gs)) = 1" by (simp add: groupMetrics_def)
  have mm: "mg_modules (hd ?gs) = [''/a.ts'']" by (simp add: groupMetrics_def)
  from single_file_group_metrics[OF m l] show ?thesis
    unfolding mm by (simp add: crossingRelationships_def importRel_def)
qed

section \<open>Claims about cycle reporting\<close>

lemma findCycles_emptyGraph: "findCycles emptyGraph = []"
  by (simp add: findCycles_def findStronglyConnectedComponents_def nodes_def emptyGraph_def
      initialState_def)

lemma detectedCycles_no_files: "detectedCycles cwd lang deps [] = []"
  by (simp add: detectedCycles_def extractCycleRelationships_def buildGraph_def
      findCycles_emptyGraph)

lemma findCycles_sorted: "sorted (map (\<lambda>c. severityOrder (c_severity c)) (findCycles g))"
  by (simp add: findCycles_def)

lemma foldl_addToSet:
  "distinct acc \<Longrightarrow>
     distinct (foldl addToSet acc ns) \<and> set (foldl addToSet acc ns) = set acc \<union> set ns"
  by (induction ns arbitrary: acc) (auto simp: addToSet_def)

lemma foldl_cycle_nodes:
  "distinct acc \<Longrightarrow>
     distinct (foldl (\<lambda>acc c. foldl addToSet acc (c_nodes c)) acc cs)
     \<and> set (foldl (\<lambda>acc c. foldl addToSet acc (c_nodes c)) acc cs)
         = set acc \<union> (\<Union>c\<in>set cs. set (c_nodes c))"
proof (induction cs arbitrary: acc)
  case Nil
  then show ?case by simp
next
  case (Cons c cs)
  from foldl_addToSet[OF Cons.prems, of "c_nodes c"]
  have d: "distinct (foldl addToSet acc (c_nodes c))"
    and s: "set (foldl addToSet acc (c_nodes c)) = set acc \<union> set (c_nodes c)"
    by simp_all
  from Cons.IH[OF d] s show ?case by auto
qed

lemma twoCycle_detected:
  "detectedCycles ''/'' TypeScript twoCycleDeps twoCycleFiles
     = [\<lparr>c_nodes = [''/a.ts'', ''/b.ts''], c_length = 2, c_severity = Low\<rparr>,
        \<lparr>c_nodes = [''/c.ts'', ''/d.ts''], c_length = 2, c_severity = Low\<rparr>]"
  by code_simp

text \<open>
  C10, as the specification states it: the reported cycles are the first \<open>maxCycles\<close>
  of all cycles found. The tool hands \<open>maxCycles\<close>, any number the caller sends, to
  \<^verbatim>\<open>slice(0, maxCycles)\<close>, and for a negative number \<^verbatim>\<open>slice\<close> counts from the end
  of the array: with two cycles found and \<open>maxCycles = -1\<close> the tool reports the first
  cycle, where the first \<open>-1\<close> elements of a list are none.
\<close>

theorem detect_negative_maxCycles_counterexample:
  "detectedCycles ''/'' TypeScript twoCycleDeps twoCycleFiles
     = [\<lparr>c_nodes = [''/a.ts'', ''/b.ts''], c_length = 2, c_severity = Low\<rparr>,
        \<lparr>c_nodes = [''/c.ts'', ''/d.ts''], c_length = 2, c_severity = Low\<rparr>]
   \<and> cycles (detectCircularDependencies ''/'' TypeScript twoCycleDeps twoCycleFiles (- 1))
       = [\<lparr>c_nodes = [''/a.ts'', ''/b.ts''], c_length = 2, c_severity = Low\<rparr>]
   \<and> take (nat (- 1)) (detectedCycles ''/'' TypeScript twoCycleDeps twoCycleFiles) = []"
  by code_simp

text \<open>
  C10, amended: the detector finds all cycles, sorted by severity, and reports
  \<^verbatim>\<open>allCycles.slice(0, maxCycles)\<close> of them: the first \<open>maxCycles\<close> when
  \<open>maxCycles\<close> is not negative, and all but the last \<open>-maxCycles\<close> when it is.
  Whether there are cycles, their number, the count per severity and the affected files
  are taken from all of them, whatever \<open>maxCycles\<close> is. The affected files are the nodes
  of all cycles without repetition.
\<close>

theorem detect_output_slice_of_all_cycles:
  "sorted (map (\<lambda>c. severityOrder (c_severity c)) (detectedCycles cwd lang deps files))
    \<and> cycles (detectCircularDependencies cwd lang deps files maxCycles)
        = (if 0 \<le> maxCycles then take (nat maxCycles) (detectedCycles cwd lang deps files)
           else take (length (detectedCycles cwd lang deps files) - nat (- maxCycles))
                  (detectedCycles cwd lang deps files))
    \<and> hasCycles (detectCircularDependencies cwd lang deps files maxCycles)
        = (detectedCycles cwd lang deps files \<noteq> [])
    \<and> totalCycles (detectCircularDependencies cwd lang deps files maxCycles)
        = length (detectedCycles cwd lang deps files)
    \<and> critical (summary (detectCircularDependencies cwd lang deps files maxCycles))
        = length (filter (\<lambda>c. c_severity c = Critical) (detectedCycles cwd lang deps files))
    \<and> high (summary (detectCircularDependencies cwd lang deps files maxCycles))
        = length (filter (\<lambda>c. c_severity c = High) (detectedCycles cwd lang deps files))
    \<and> medium (summary (detectCircularDependencies cwd lang deps files maxCycles))
        = length (filter (\<lambda>c. c_severity c = Medium) (detectedCycles cwd lang deps files))
    \<and> low (summary (detectCircularDependencies cwd lang deps files maxCycles))
        = length (filter (\<lambda>c. c_severity c = Low) (detectedCycles cwd lang deps files))
    \<and> distinct (affectedFiles (detectCircularDependencies cwd lang deps files maxCycles))
    \<and> set (affectedFiles (detectCircularDependencies cwd lang deps files maxCycles))
        = (\<Union>c\<in>set (detectedCycles cwd lang deps files). set (c_nodes c))"
proof (cases "files = []")
  case True
  then show ?thesis
    by (simp add: detectCircularDependencies_def detectedCycles_no_files)
next
  case False
  have srt: "sorted (map (\<lambda>c. severityOrder (c_severity c)) (detectedCycles cwd lang deps files))"
    by (simp add: detectedCycles_def findCycles_sorted)
  have aff: "distinct (foldl (\<lambda>acc c. foldl addToSet acc (c_nodes c)) []
        (detectedCycles cwd lang deps files))
    \<and> set (foldl (\<lambda>acc c. foldl addToSet acc (c_nodes c)) []
        (detectedCycles cwd lang deps files))
      = (\<Union>c\<in>set (detectedCycles cwd lang deps files). set (c_nodes c))"
    using foldl_cycle_nodes[of "[]" "detectedCycles cwd lang deps files"] by simp
  from False srt aff show ?thesis
    by (simp add: detectCircularDependencies_def detectedCycles_def [symmetric] Let_def
        sliceFromStart_def countSeverity_def)
qed

theorem detect_output_slice_of_all_cycles_witness:
  "cycles (detectCircularDependencies ''/'' TypeScript twoCycleDeps twoCycleFiles 1)
       = [\<lparr>c_nodes = [''/a.ts'', ''/b.ts''], c_length = 2, c_severity = Low\<rparr>]
   \<and> hasCycles (detectCircularDependencies ''/'' TypeScript twoCycleDeps twoCycleFiles 1)
   \<and> totalCycles (detectCircularDependencies ''/'' TypeScript twoCycleDeps twoCycleFiles 1) = 2
   \<and> low (summary (detectCircularDependencies ''/'' TypeScript twoCycleDeps twoCycleFiles 1)) = 2
   \<and> set (affectedFiles (detectCircularDependencies ''/'' TypeScript twoCycleDeps twoCycleFiles 1))
       = {''/a.ts'', ''/b.ts'', ''/c.ts'', ''/d.ts''}
   \<and> cycles (detectCircularDependencies ''/'' TypeScript twoCycleDeps twoCycleFiles (- 1))
       = [\<lparr>c_nodes = [''/a.ts'', ''/b.ts''], c_length = 2, c_severity = Low\<rparr>]
   \<and> cycles (detectCircularDependencies ''/'' TypeScript twoCycleDeps twoCycleFiles 0) = []"
  using detect_output_slice_of_all_cycles
    [of "''/''" TypeScript twoCycleDeps twoCycleFiles 1]
    detect_output_slice_of_all_cycles
    [of "''/''" TypeScript twoCycleDeps twoCycleFiles "- 1"]
    detect_output_slice_of_all_cycles
    [of "''/''" TypeScript twoCycleDeps twoCycleFiles 0]
  by (auto simp: twoCycle_detected)

text \<open>
  C2 at a cycle with a shared predecessor: \<open>p\<close> imports both members of the
  cycle \<open>a \<rightarrow> b \<rightarrow> a\<close>. The cycle has one predecessor outside itself,
  which with length 2 is severity low by the specification's thresholds; the code adds
  the outside predecessors member by member, counts \<open>p\<close> twice and answers medium.
\<close>

theorem severity_counts_shared_predecessor_twice:
  "findCycles (buildGraph [importRel ''a'' ''b'', importRel ''b'' ''a'',
       importRel ''p'' ''a'', importRel ''p'' ''b''])
     = [\<lparr>c_nodes = [''a'', ''b''], c_length = 2, c_severity = Medium\<rparr>]
   \<and> affectedNodes [''a'', ''b''] (buildGraph [importRel ''a'' ''b'', importRel ''b'' ''a'',
       importRel ''p'' ''a'', importRel ''p'' ''b'']) = 2
   \<and> remdups (filter (\<lambda>p. p \<notin> set [''a'', ''b''])
        (concat (map (predecessors (buildGraph [importRel ''a'' ''b'', importRel ''b'' ''a'',
       importRel ''p'' ''a'', importRel ''p'' ''b''])) [''a'', ''b''])))
     = [''p'']"
  by code_simp

section \<open>Claims about the Python classifier\<close>

lemma stripDots_eq:
  "stripDots n s = (n + length (takeWhile (\<lambda>c. c = CHR ''.'') s), dropWhile (\<lambda>c. c = CHR ''.'') s)"
  by (induction s arbitrary: n) auto

lemma goUp_eq: "goUp i dots t = (posix_dirname ^^ (dots - i)) t"
proof (induction i dots t rule: goUp.induct)
  case (1 i dots t)
  show ?case
  proof (cases "i < dots")
    case True
    then have "dots - i = Suc (dots - (i + 1))" by simp
    with 1 True show ?thesis
      by (simp add: funpow_swap1 goUp.simps[of i dots t])
  next
    case False
    then show ?thesis by (simp add: goUp.simps[of i dots t])
  qed
qed

lemma empty_not_builtin: "[] \<notin> set pythonBuiltins"
  by (simp add: pythonBuiltins_def)

lemma relative_not_builtin: "startsWith importPath ''.'' \<Longrightarrow> \<not> isPythonBuiltin importPath"
  by (cases importPath) (auto simp: startsWith_def isPythonBuiltin_def firstSegment_def
      empty_not_builtin split: list.splits if_splits)

text \<open>
  C9, amended: a Python import with leading dots is never a built-in; it is resolved
  against the directory of the importing file, going up one directory for every leading
  dot after the first; the path with \<^verbatim>\<open>.py\<close> appended is probed first, then
  \<^verbatim>\<open>__init__.py\<close> inside the resolved directory; the first that exists is the
  target, otherwise the unresolved path, and the dependency is internal.
\<close>

theorem classify_relative_python:
  assumes "startsWith importPath ''.''"
  shows "classifyPythonDependency existsSync importPath fromFile basePath =
    \<lparr>d_from = fromFile,
     d_to = probePython existsSync
       (joinParts ((posix_dirname ^^ (leadingDots importPath - 1)) (posix_dirname fromFile))
          (splitOn CHR ''.'' (dropWhile (\<lambda>c. c = CHR ''.'') importPath))),
     d_type = Internal, packageName = None, importStatements = [importPath]\<rparr>"
  using assms relative_not_builtin[OF assms]
  by (simp add: classifyPythonDependency_def Let_def stripDots_eq goUp_eq leadingDots_def
      probePython_def)

text \<open>
  C9, as the specification states it, goes up one directory per leading dot. For
  \<^verbatim>\<open>from .utils import x\<close> in \<^verbatim>\<open>/proj/pkg/a.py\<close> the code stays in
  \<^verbatim>\<open>/proj/pkg\<close>, where Python looks too; one directory up per dot would give
  \<^verbatim>\<open>/proj/utils\<close>.
\<close>

theorem classify_relative_python_counterexample:
  "d_to (classifyPythonDependency demoFs ''.utils'' ''/proj/pkg/a.py'' ''/proj'')
     = ''/proj/pkg/utils.py''
   \<and> specRelativeTarget demoFs ''.utils'' ''/proj/pkg/a.py'' = ''/proj/utils''
   \<and> d_to (classifyPythonDependency demoFs ''.utils'' ''/proj/pkg/a.py'' ''/proj'')
     \<noteq> specRelativeTarget demoFs ''.utils'' ''/proj/pkg/a.py''"
  by code_simp

theorem classify_relative_python_witness:
  "startsWith ''..utils'' ''.''
   \<and> classifyPythonDependency demoFs ''..utils'' ''/proj/pkg/sub/a.py'' ''/proj'' =
    \<lparr>d_from = ''/proj/pkg/sub/a.py'', d_to = ''/proj/pkg/utils.py'',
     d_type = Internal, packageName = None, importStatements = [''..utils'']\<rparr>"
proof -
  have s: "startsWith ''..utils'' ''.''" by (simp add: startsWith_def)
  have p: "probePython demoFs
       (joinParts ((posix_dirname ^^ (leadingDots ''..utils'' - 1)) (posix_dirname ''/proj/pkg/sub/a.py''))
          (splitOn CHR ''.'' (dropWhile (\<lambda>c. c = CHR ''.'') ''..utils''))) = ''/proj/pkg/utils.py''"
    by code_simp
  from classify_relative_python[OF s, of demoFs "''/proj/pkg/sub/a.py''" "''/proj''"] s
  show ?thesis unfolding p by simp
qed

section \<open>Claims about file complexity\<close>

lemma exp_one_ge_2: "(2::real) \<le> exp 1"
  using exp_ge_add_one_self[of "1::real"] by simp

lemma exp_nat: "exp (real n) = exp 1 ^ n"
  using exp_of_nat_mult[of n "1::real"] by simp

lemma ln_256_gt_5: "5 < ln (256::real)"
proof -
  have "exp (5::real) = exp 1 ^ 5" using exp_nat[of 5] by simp
  also have "\<dots> \<le> 3 ^ 5" by (rule power_mono) (simp_all add: exp_le)
  also have "\<dots> < (256::real)" by simp
  finally have "exp (5::real) < 256" .
  then have "ln (exp (5::real)) < ln 256" by (subst ln_less_cancel_iff) simp_all
  then show ?thesis by simp
qed

lemma ln_256_le_8: "ln (256::real) \<le> 8"
proof -
  have "(256::real) = 2 ^ 8" by simp
  also have "\<dots> \<le> exp 1 ^ 8" by (rule power_mono) (simp_all add: exp_one_ge_2)
  also have "\<dots> = exp (8::real)" using exp_nat[of 8] by simp
  finally have "(256::real) \<le> exp 8" .
  then have "ln (256::real) \<le> ln (exp 8)" by (subst ln_le_cancel_iff) simp_all
  then show ?thesis by simp
qed

lemma ln_6_le_3: "ln (6::real) \<le> 3"
proof -
  have "(6::real) \<le> 2 ^ 3" by simp
  also have "\<dots> \<le> exp 1 ^ 3" by (rule power_mono) (simp_all add: exp_one_ge_2)
  also have "\<dots> = exp (3::real)" using exp_nat[of 3] by simp
  finally have "(6::real) \<le> exp 3" .
  then have "ln (6::real) \<le> ln (exp 3)" by (subst ln_le_cancel_iff) simp_all
  then show ?thesis by simp
qed

lemma ln_6_ge_ln_2_plus_1: "ln (2::real) + 1 \<le> ln 6"
proof -
  have "exp (1::real) \<le> 3" by (rule exp_le)
  then have "ln (exp (1::real)) \<le> ln 3" by (subst ln_le_cancel_iff) simp_all
  then have "1 \<le> ln (3::real)" by simp
  moreover have "ln (6::real) = ln 2 + ln 3"
    using ln_mult[of "2::real" 3] by simp
  ultimately show ?thesis by simp
qed

lemma maintainability_range: "0 \<le> maintainability a l \<and> maintainability a l \<le> 100"
  by (simp add: maintainability_def)

lemma round_range:
  assumes "0 \<le> (x::real)" "x \<le> 100"
  shows "0 \<le> round x \<and> round x \<le> 100"
proof -
  have "round (0::real) \<le> round x" using assms(1) by (rule round_mono)
  moreover have "round x \<le> round (100::real)" using assms(2) by (rule round_mono)
  ultimately show ?thesis by simp
qed

text \<open>
  C7, as the specification states it, takes the total complexity for the average when
  the file has no functions, and does not round. A Python file of 255 lines with
  complexity 5 and no function gets the index computed from the average 1, rounded,
  which is more than 5 above the specification's value.
\<close>

theorem maintainability_index_python_counterexample:
  "real_of_int (maintainabilityIndex (calculatePyFileComplexity 5 0 255))
     \<noteq> specMaintainabilityIndex 5 0 255"
proof -
  define a b c :: real where "a = ln 2" and "b = ln 6" and "c = ln 256"
  have a0: "0 \<le> a" unfolding a_def by (rule ln_ge_zero) simp
  have c5: "5 < c" unfolding c_def by (rule ln_256_gt_5)
  have c8: "c \<le> 8" unfolding c_def by (rule ln_256_le_8)
  have b3: "b \<le> 3" unfolding b_def by (rule ln_6_le_3)
  have ab: "a + 1 \<le> b" unfolding a_def b_def by (rule ln_6_ge_ln_2_plus_1)
  let ?f1 = "171 - 5.2 * a - 0.23 - 16.2 * c"
  let ?f5 = "171 - 5.2 * b - 1.15 - 16.2 * c"
  have f1_hi: "?f1 < 100" using a0 c5 by simp
  have f5_lo: "0 < ?f5" using c8 b3 by simp
  have gap: "?f5 + 6 < ?f1" using ab by simp
  have f1_lo: "0 < ?f1" using f5_lo gap by simp
  have f5_hi: "?f5 < 100" using f1_hi gap by simp
  have code: "maintainabilityIndex (calculatePyFileComplexity 5 0 255) = round ?f1"
    using f1_lo f1_hi
    by (simp add: calculatePyFileComplexity_def maintainability_def a_def c_def)
  have spec: "specMaintainabilityIndex 5 0 255 = ?f5"
    using f5_lo f5_hi by (simp add: specMaintainabilityIndex_def b_def c_def)
  have "?f1 - 1 / 2 \<le> real_of_int (round ?f1)"
    using of_int_round_ge[of ?f1] by simp
  with gap have "?f5 < real_of_int (round ?f1)" by simp
  with code spec show ?thesis by simp
qed

text \<open>
  C7, amended: the maintainability index is the clamp to [0, 100] of
  171 - 5.2 ln(avg + 1) - 0.23 avg - 16.2 ln(linesOfCode + 1), rounded to the nearest
  integer, where avg is the total complexity divided by the number of functions, or 1
  when the file has no functions; it always lies in [0, 100]. (Numbers are reals here;
  the code computes in double precision.)
\<close>

theorem maintainability_index_rounded_clamp:
  "maintainabilityIndex (calculateTsFileComplexity functions loc) =
     round (max 0 (min 100
       (171 - 5.2 * ln ((if functions = [] then 1
                         else real (sum_list functions) / real (length functions)) + 1)
            - 0.23 * (if functions = [] then 1
                      else real (sum_list functions) / real (length functions))
            - 16.2 * ln (real loc + 1))))
   \<and> maintainabilityIndex (calculatePyFileComplexity complexity funcCount loc) =
     round (max 0 (min 100
       (171 - 5.2 * ln ((if funcCount = 0 then 1 else real complexity / real funcCount) + 1)
            - 0.23 * (if funcCount = 0 then 1 else real complexity / real funcCount)
            - 16.2 * ln (real loc + 1))))
   \<and> 0 \<le> maintainabilityIndex (calculateTsFileComplexity functions loc)
   \<and> maintainabilityIndex (calculateTsFileComplexity functions loc) \<le> 100
   \<and> 0 \<le> maintainabilityIndex (calculatePyFileComplexity complexity funcCount loc)
   \<and> maintainabilityIndex (calculatePyFileComplexity complexity funcCount loc) \<le> 100"
proof -
  have ts: "maintainabilityIndex (calculateTsFileComplexity functions loc) =
     round (max 0 (min 100
       (171 - 5.2 * ln ((if functions = [] then 1
                         else real (sum_list functions) / real (length functions)) + 1)
            - 0.23 * (if functions = [] then 1
                      else real (sum_list functions) / real (length functions))
            - 16.2 * ln (real loc + 1))))"
    by (simp add: calculateTsFileComplexity_def maintainability_def Let_def)
  have py: "maintainabilityIndex (calculatePyFileComplexity complexity funcCount loc) =
     round (max 0 (min 100
       (171 - 5.2 * ln ((if funcCount = 0 then 1 else real complexity / real funcCount) + 1)
            - 0.23 * (if funcCount = 0 then 1 else real complexity / real funcCount)
            - 16.2 * ln (real loc + 1))))"
    by (simp add: calculatePyFileComplexity_def maintainability_def Let_def)
  have tsr: "0 \<le> maintainabilityIndex (calculateTsFileComplexity functions loc)
      \<and> maintainabilityIndex (calculateTsFileComplexity functions loc) \<le> 100"
    using round_range[of "maintainability a l" for a l] maintainability_range
    by (simp add: calculateTsFileComplexity_def Let_def)
  have pyr: "0 \<le> maintainabilityIndex (calculatePyFileComplexity complexity funcCount loc)
      \<and> maintainabilityIndex (calculatePyFileComplexity complexity funcCount loc) \<le> 100"
    using round_range[of "maintainability a l" for a l] maintainability_range
    by (simp add: calculatePyFileComplexity_def Let_def)
  from ts py tsr pyr show ?thesis by blast
qed

section \<open>Claims about the dependency graph tool\<close>

lemma set_nodeKeys_addRelationship:
  "set (nodeKeys (addRelationship g r)) = insert (source r) (insert (target r) (set (nodeKeys g)))"
  by (auto simp: addRelationship_def setEdge_def Let_def hasNode_def)

lemma distinct_nodeKeys_setEdge [simp]:
  "distinct (nodeKeys (setEdge g v w l)) = distinct (nodeKeys g)"
  by (simp add: setEdge_def Let_def)

lemma distinct_nodeKeys_addRelationship:
  "distinct (nodeKeys (addRelationship g r)) = distinct (nodeKeys g)"
  by (simp add: addRelationship_def Let_def)

lemma foldl_addRelationship_nodeKeys:
  "set (nodeKeys (foldl addRelationship g rs))
     = set (nodeKeys g) \<union> source ` set rs \<union> target ` set rs"
  by (induction rs arbitrary: g) (auto simp: set_nodeKeys_addRelationship)

lemma foldl_addRelationship_distinct_nodes:
  "distinct (nodeKeys (foldl addRelationship g rs)) = distinct (nodeKeys g)"
  by (induction rs arbitrary: g) (auto simp: distinct_nodeKeys_addRelationship)

lemma set_nodeKeys_ensureFileNode:
  "set (nodeKeys (ensureFileNode g f)) = insert f (set (nodeKeys g))"
  by (auto simp: ensureFileNode_def hasNode_def)

lemma distinct_nodeKeys_ensureFileNode:
  "distinct (nodeKeys (ensureFileNode g f)) = distinct (nodeKeys g)"
  by (simp add: ensureFileNode_def)

lemma foldl_ensureFileNode_nodeKeys:
  "set (nodeKeys (foldl ensureFileNode g fs)) = set (nodeKeys g) \<union> set fs"
  by (induction fs arbitrary: g) (auto simp: set_nodeKeys_ensureFileNode)

lemma foldl_ensureFileNode_distinct:
  "distinct (nodeKeys (foldl ensureFileNode g fs)) = distinct (nodeKeys g)"
  by (induction fs arbitrary: g) (auto simp: distinct_nodeKeys_ensureFileNode)

lemma graphOfFiles_nodes:
  "set (nodes (graphOfFiles files rels)) = set files \<union> source ` set rels \<union> target ` set rels"
  by (auto simp: graphOfFiles_def nodes_def buildGraph_def foldl_ensureFileNode_nodeKeys
      foldl_addRelationship_nodeKeys emptyGraph_def)

lemma graphOfFiles_distinct: "distinct (nodes (graphOfFiles files rels))"
  by (simp add: graphOfFiles_def nodes_def buildGraph_def foldl_ensureFileNode_distinct
      foldl_addRelationship_distinct_nodes emptyGraph_def)

lemma find_Some_holds: "find P xs = Some x \<Longrightarrow> P x"
  by (induction xs) (auto split: if_splits)

lemma graphRelationshipsOf_internal_ends:
  assumes "r \<in> set (graphRelationshipsOf cwd lang False fileSet f dep)"
  shows "source r = f \<and> target r \<in> fileSet"
  using assms
  by (auto simp: graphRelationshipsOf_def importRel_def Let_def
      split: if_splits option.splits dest: find_Some_holds[OF sym])

lemma extractRelationships_internal_ends:
  assumes "r \<in> set (extractRelationships cwd lang False deps files)"
  shows "source r \<in> set files \<and> target r \<in> posix_resolve cwd ` set files"
  using assms graphRelationshipsOf_internal_ends
  by (fastforce simp: extractRelationships_def Let_def)

text \<open>
  C4, as the specification states it, holds for every relationship list. A
  relationship to a package, as the extraction emits with \<^verbatim>\<open>includeExternal\<close>,
  adds the package to the nodes.
\<close>

theorem graphOfFiles_extra_nodes_counterexample:
  "nodes (graphOfFiles [''/src/a.ts''] [importRel ''/src/a.ts'' ''react''])
     = [''/src/a.ts'', ''react'']
   \<and> set (nodes (graphOfFiles [''/src/a.ts''] [importRel ''/src/a.ts'' ''react'']))
     \<noteq> set [''/src/a.ts'']"
  by code_simp

text \<open>
  C4, amended: the nodes of the graph are the files together with the end points of the
  relationships. When the files are distinct, \<^verbatim>\<open>path.resolve\<close> leaves each of
  them unchanged and \<^verbatim>\<open>includeExternal\<close> is false, the nodes are exactly the
  files and the JSON has as many nodes as there are files.
\<close>

theorem dependency_graph_nodes:
  assumes "distinct files" and "\<forall>f\<in>set files. posix_resolve cwd f = f"
  shows "set (nodes (graphOfFiles files rels))
      = set files \<union> source ` set rels \<union> target ` set rels
    \<and> set (nodes (graphOfFiles files (extractRelationships cwd lang False deps files)))
      = set files
    \<and> length (j_nodes (dg_graph (generateDependencyGraph cwd lang False deps files)))
      = length files"
proof -
  let ?rels = "extractRelationships cwd lang False deps files"
  from assms(2) have fs: "posix_resolve cwd ` set files = set files" by force
  have ends: "source ` set ?rels \<union> target ` set ?rels \<subseteq> set files"
    using extractRelationships_internal_ends[of _ cwd lang deps files] fs by blast
  have eq: "set (nodes (graphOfFiles files ?rels)) = set files"
    using ends by (auto simp: graphOfFiles_nodes)
  have "length (nodes (graphOfFiles files ?rels)) = card (set (nodes (graphOfFiles files ?rels)))"
    using graphOfFiles_distinct by (simp add: distinct_card)
  also have "\<dots> = length files" using eq assms(1) by (simp add: distinct_card)
  finally have len: "length (nodes (graphOfFiles files ?rels)) = length files" .
  have "length (j_nodes (dg_graph (generateDependencyGraph cwd lang False deps files)))
      = length files"
    using len by (simp add: generateDependencyGraph_def generateJsonGraph_def Let_def)
  with eq graphOfFiles_nodes show ?thesis by blast
qed

lemma demo_files_resolved: "\<forall>f\<in>set [''/w/a.ts'', ''/w/b.ts'']. posix_resolve ''/w'' f = f"
  by code_simp

theorem dependency_graph_nodes_witness:
  "distinct [''/w/a.ts'', ''/w/b.ts'']
   \<and> posix_resolve ''/w'' ''/w/a.ts'' = ''/w/a.ts''
   \<and> posix_resolve ''/w'' ''/w/b.ts'' = ''/w/b.ts''
   \<and> extractRelationships ''/w'' TypeScript False demoGraphDeps [''/w/a.ts'', ''/w/b.ts'']
       = [importRel ''/w/a.ts'' ''/w/b.ts'']
   \<and> set (nodes (graphOfFiles [''/w/a.ts'', ''/w/b.ts'']
        (extractRelationships ''/w'' TypeScript False demoGraphDeps [''/w/a.ts'', ''/w/b.ts''])))
       = {''/w/a.ts'', ''/w/b.ts''}
   \<and> length (j_nodes (dg_graph (generateDependencyGraph ''/w'' TypeScript False demoGraphDeps
        [''/w/a.ts'', ''/w/b.ts'']))) = 2"
proof -
  have d: "distinct [''/w/a.ts'', ''/w/b.ts'']" by simp
  have r: "posix_resolve ''/w'' ''/w/a.ts'' = ''/w/a.ts''"
    "posix_resolve ''/w'' ''/w/b.ts'' = ''/w/b.ts''"
    by code_simp+
  have e: "extractRelationships ''/w'' TypeScript False demoGraphDeps [''/w/a.ts'', ''/w/b.ts'']
       = [importRel ''/w/a.ts'' ''/w/b.ts'']"
    by code_simp
  from dependency_graph_nodes[OF d demo_files_resolved, of "[]" TypeScript demoGraphDeps] d r e
  show ?thesis by simp
qed

section \<open>Correctness of the strongly connected components\<close>

text \<open>
  The proof follows the calls: a precondition and a postcondition for
  \<^verbatim>\<open>strongConnect\<close>, an invariant for the loop over the successors, and a frame
  that says what a call leaves alone.
\<close>

lemma successors_iff: "w \<in> set (successors g v) \<longleftrightarrow> (v, w) \<in> edgeSet g"
  by (force simp: successors_def edgeSet_def)

lemma reachable_refl [simp]: "reachable g x x"
  by (simp add: reachable_def)

lemma reachable_trans: "reachable g x y \<Longrightarrow> reachable g y z \<Longrightarrow> reachable g x z"
  by (auto simp: reachable_def)

lemma reachable_edge: "(x, y) \<in> edgeSet g \<Longrightarrow> reachable g x y"
  by (auto simp: reachable_def)

lemma component_self [simp]: "x \<in> component g x"
  by (simp add: component_def)

lemma component_eq: "y \<in> component g x \<Longrightarrow> component g y = component g x"
  by (auto simp: component_def intro: reachable_trans)

text \<open>A set closed under edges is closed under reachability.\<close>

lemma closed_reachable:
  assumes "reachable g x y" and "x \<in> A" and "\<forall>u\<in>A. \<forall>w. (u, w) \<in> edgeSet g \<longrightarrow> w \<in> A"
  shows "y \<in> A"
proof -
  from assms(1) have "(x, y) \<in> (edgeSet g)\<^sup>*" by (simp add: reachable_def)
  then show ?thesis using assms(2,3)
    by (induction rule: rtrancl_induct) auto
qed

subsection \<open>The state after entering a node\<close>

lemma enterNode_fields [simp]:
  "lowLinks (enterNode v st) = (lowLinks st)(v \<mapsto> index st)"
  "stack (enterNode v st) = v # stack st"
  "onStack (enterNode v st) = insert v (onStack st)"
  "sccs (enterNode v st) = sccs st"
  "index (enterNode v st) = index st + 1"
  by (simp_all add: enterNode_def)

lemma lowerLink_fields [simp]:
  "lowLinks (lowerLink v k st) = (lowLinks st)(v \<mapsto> min (the (lowLinks st v)) k)"
  "stack (lowerLink v k st) = stack st"
  "onStack (lowerLink v k st) = onStack st"
  "sccs (lowerLink v k st) = sccs st"
  "index (lowerLink v k st) = index st"
  by (simp_all add: lowerLink_def)

lemma num_lowerLink [simp]: "num (lowerLink v k st) = num st"
  by (simp add: num_def fun_eq_iff)

lemma finished_lowerLink [simp]: "finished (lowerLink v k st) = finished st"
  by (simp add: finished_def)

lemma low_lowerLink:
  "lnk (lowerLink v k st) x = (if x = v then min (lnk st v) k else lnk st x)"
  by (simp add: lnk_def)

lemma num_enterNode: "num (enterNode v st) x = (if x = v then index st else num st x)"
  by (simp add: num_def)

lemma low_enterNode: "lnk (enterNode v st) x = (if x = v then index st else lnk st x)"
  by (simp add: lnk_def)

lemma finished_enterNode:
  "v \<notin> dom (indices st) \<Longrightarrow> finished (enterNode v st) = finished st"
  by (auto simp: finished_def)

lemma sorted_wrt_num_cong:
  assumes "\<forall>x\<in>set xs. num st' x = num st x"
  shows "sorted_wrt (\<lambda>x y. num st' y < num st' x) xs = sorted_wrt (\<lambda>x y. num st y < num st x) xs"
proof
  assume "sorted_wrt (\<lambda>x y. num st' y < num st' x) xs"
  then show "sorted_wrt (\<lambda>x y. num st y < num st x) xs"
    by (rule sorted_wrt_mono_rel[rotated]) (use assms in auto)
next
  assume "sorted_wrt (\<lambda>x y. num st y < num st x) xs"
  then show "sorted_wrt (\<lambda>x y. num st' y < num st' x) xs"
    by (rule sorted_wrt_mono_rel[rotated]) (use assms in auto)
qed

lemma wf_state_enterNode:
  assumes "wf_state st" and "v \<notin> dom (indices st)"
  shows "wf_state (enterNode v st)"
proof -
  from assms have nv: "v \<notin> set (stack st)" by (auto simp: wf_state_def)
  have lt: "\<forall>x\<in>set (stack st). num st x < index st"
    using assms(1) by (auto simp: wf_state_def num_def)
  have "sorted_wrt (\<lambda>x y. num (enterNode v st) y < num (enterNode v st) x) (stack st)
      = sorted_wrt (\<lambda>x y. num st y < num st x) (stack st)"
    using nv by (intro sorted_wrt_num_cong) (auto simp: num_enterNode)
  with assms lt nv show ?thesis
    by (auto simp: wf_state_def num_enterNode less_Suc_eq split: if_splits)
qed

lemma wf_state_lowerLink:
  assumes "wf_state st" and "v \<in> dom (indices st)"
  shows "wf_state (lowerLink v k st)"
  using assms by (auto simp: wf_state_def)

lemma stack_num_less:
  "wf_state st \<Longrightarrow> x \<in> set (stack st) \<Longrightarrow> num st x < index st"
  by (auto simp: wf_state_def num_def)

lemma stack_visited: "wf_state st \<Longrightarrow> x \<in> set (stack st) \<Longrightarrow> x \<in> dom (indices st)"
  by (auto simp: wf_state_def)

lemma tarjan_inv_enterNode:
  assumes "pre_sc g v st"
  shows "tarjan_inv g (enterNode v st)"
proof -
  from assms have inv: "tarjan_inv g st" and nv: "v \<notin> dom (indices st)"
    and r: "\<forall>x\<in>set (stack st). reachable g x v"
    by (simp_all add: pre_sc_def)
  from inv have wf: "wf_state st" by (simp add: tarjan_inv_def)
  have nvs: "v \<notin> set (stack st)" using wf nv by (auto simp: wf_state_def)
  have wf': "wf_state (enterNode v st)" using wf nv by (rule wf_state_enterNode)
  have sr: "stack_reach g (enterNode v st)"
    unfolding stack_reach_def
  proof (intro ballI impI)
    fix x y
    assume x: "x \<in> set (stack (enterNode v st))" and y: "y \<in> set (stack (enterNode v st))"
      and le: "num (enterNode v st) x \<le> num (enterNode v st) y"
    show "reachable g x y"
    proof (cases "y = v")
      case True
      with x r show ?thesis by auto
    next
      case False
      with y have ys: "y \<in> set (stack st)" by simp
      show ?thesis
      proof (cases "x = v")
        case True
        with le False stack_num_less[OF wf ys] show ?thesis by (simp add: num_enterNode)
      next
        case xv: False
        with x have "x \<in> set (stack st)" by simp
        with ys le xv False inv show ?thesis
          by (auto simp: tarjan_inv_def stack_reach_def num_enterNode)
      qed
    qed
  qed
  have fin: "finished (enterNode v st) = finished st" using nv by (rule finished_enterNode)
  from inv have "finished_closed g (enterNode v st)"
    by (simp add: tarjan_inv_def finished_closed_def fin)
  moreover from inv have "sccs_sound g (enterNode v st)"
    by (simp add: tarjan_inv_def sccs_sound_def fin)
  moreover from inv have "sccs_complete g (enterNode v st)"
    by (simp add: tarjan_inv_def sccs_complete_def fin)
  ultimately show ?thesis using wf' sr by (simp add: tarjan_inv_def)
qed

lemma loop_inv_enterNode:
  assumes "pre_sc g v st"
  shows "loop_inv g v (successors g v) (enterNode v st)"
proof -
  from assms have r: "\<forall>x\<in>set (stack st). reachable g x v"
    by (simp add: pre_sc_def)
  have "\<forall>w. w \<notin> set (successors g v) \<longrightarrow> edges_ok g (enterNode v st) v v w"
    by (simp add: edges_ok_def successors_iff)
  with tarjan_inv_enterNode[OF assms] r show ?thesis
    by (auto simp: loop_inv_def above_def num_enterNode low_enterNode)
qed

subsection \<open>Frames\<close>

lemma frame_refl [simp]: "frame X st st"
  by (simp add: frame_def)

lemma frame_dom: "frame X st st' \<Longrightarrow> dom (indices st) \<subseteq> dom (indices st')"
  by (auto simp: frame_def dom_def)

lemma frame_trans:
  assumes "frame X st st'" and "frame Y st' st''" and "X \<subseteq> Z" and "Y \<subseteq> Z"
  shows "frame Z st st''"
proof -
  have d: "dom (indices st) \<subseteq> dom (indices st')" using assms(1) by (rule frame_dom)
  from assms(1) obtain N cs where s1: "stack st' = N @ stack st"
    and n1: "set N \<inter> dom (indices st) = {}" and c1: "sccs st' = sccs st @ cs"
    by (auto simp: frame_def)
  from assms(2) obtain N' cs' where s2: "stack st'' = N' @ stack st'"
    and n2: "set N' \<inter> dom (indices st') = {}" and c2: "sccs st'' = sccs st' @ cs'"
    by (auto simp: frame_def)
  have i: "\<forall>x\<in>dom (indices st). indices st'' x = indices st x"
  proof
    fix x assume x: "x \<in> dom (indices st)"
    with d have "x \<in> dom (indices st')" by blast
    with assms(2) have "indices st'' x = indices st' x" by (simp add: frame_def)
    with assms(1) x show "indices st'' x = indices st x" by (simp add: frame_def)
  qed
  have l: "\<forall>x\<in>dom (indices st) - Z. lowLinks st'' x = lowLinks st x"
  proof
    fix x assume x: "x \<in> dom (indices st) - Z"
    with d assms(4) have "x \<in> dom (indices st') - Y" by blast
    with assms(2) have "lowLinks st'' x = lowLinks st' x" by (simp add: frame_def)
    moreover from x assms(3) have "x \<in> dom (indices st) - X" by blast
    with assms(1) have "lowLinks st' x = lowLinks st x" by (simp add: frame_def)
    ultimately show "lowLinks st'' x = lowLinks st x" by simp
  qed
  have "stack st'' = (N' @ N) @ stack st" using s1 s2 by simp
  moreover have "set (N' @ N) \<inter> dom (indices st) = {}"
    using n1 n2 d by (simp only: set_append) blast
  moreover have "sccs st'' = sccs st @ (cs @ cs')" using c1 c2 by simp
  ultimately show ?thesis using i l unfolding frame_def by blast
qed

lemma frame_enterNode: "v \<notin> dom (indices st) \<Longrightarrow> frame X st (enterNode v st)"
  unfolding frame_def by (auto intro: exI[of _ "[v]"])

lemma frame_lowerLink: "v \<in> X \<Longrightarrow> frame X st (lowerLink v k st)"
  unfolding frame_def by auto

lemma frame_num: "frame X st st' \<Longrightarrow> x \<in> dom (indices st) \<Longrightarrow> num st' x = num st x"
  by (simp add: frame_def num_def)

lemma frame_low:
  "frame X st st' \<Longrightarrow> x \<in> dom (indices st) \<Longrightarrow> x \<notin> X \<Longrightarrow> lnk st' x = lnk st x"
  by (simp add: frame_def lnk_def)

lemma frame_stack_old:
  "frame X st st' \<Longrightarrow> x \<in> dom (indices st) \<Longrightarrow> x \<in> set (stack st') \<longleftrightarrow> x \<in> set (stack st)"
  by (auto simp: frame_def)

lemma tarjan_inv_lowerLink:
  assumes "tarjan_inv g st" and "v \<in> dom (indices st)"
  shows "tarjan_inv g (lowerLink v k st)"
  using assms wf_state_lowerLink[of st v k]
  by (simp add: tarjan_inv_def stack_reach_def finished_closed_def sccs_sound_def
      sccs_complete_def)

lemma above_lowerLink [simp]: "above v (lowerLink u k st) = above v st"
  by (simp add: above_def)

lemma edges_ok_lowerLink:
  "edges_ok g st v u w \<Longrightarrow> edges_ok g (lowerLink v k st) v u w"
  by (auto simp: edges_ok_def low_lowerLink)

lemma loop_inv_stack: "loop_inv g v ss st \<Longrightarrow> v \<in> dom (indices st)"
  by (auto simp: loop_inv_def tarjan_inv_def wf_state_def)

lemma loop_step_onstack:
  assumes li: "loop_inv g v (s # ss) st" and vis: "indices st s \<noteq> None"
    and on: "s \<in> onStack st"
  shows "loop_inv g v ss (lowerLink v (the (indices st s)) st)"
proof -
  let ?st = "lowerLink v (the (indices st s)) st"
  from li have inv: "tarjan_inv g st" and vs: "v \<in> set (stack st)"
    and sub: "set (s # ss) \<subseteq> set (successors g v)"
    and r: "\<forall>x\<in>set (stack st). reachable g x v"
    and lo: "lnk st v \<le> num st v"
    and wit: "\<exists>w\<in>set (stack st). num st w = lnk st v \<and> reachable g v w"
    and ab: "\<forall>u\<in>above v st. \<forall>w. edges_ok g st v u w"
    and own: "\<forall>w. w \<notin> set (s # ss) \<longrightarrow> edges_ok g st v v w"
    by (simp_all add: loop_inv_def)
  from inv on have ss: "s \<in> set (stack st)" by (simp add: tarjan_inv_def wf_state_def)
  from sub have e: "(v, s) \<in> edgeSet g" by (simp add: successors_iff)
  have inv': "tarjan_inv g ?st"
    using inv loop_inv_stack[OF li] by (rule tarjan_inv_lowerLink)
  have lo': "lnk ?st v \<le> num ?st v" using lo by (simp add: low_lowerLink)
  have wit': "\<exists>w\<in>set (stack ?st). num ?st w = lnk ?st v \<and> reachable g v w"
  proof (cases "lnk st v \<le> num st s")
    case True
    with wit show ?thesis by (simp add: low_lowerLink num_def min_def)
  next
    case False
    with ss reachable_edge[OF e] show ?thesis
      by (auto simp: low_lowerLink num_def min_def)
  qed
  have ab': "\<forall>u\<in>above v ?st. \<forall>w. edges_ok g ?st v u w"
    using ab by (auto intro: edges_ok_lowerLink)
  have own': "\<forall>w. w \<notin> set ss \<longrightarrow> edges_ok g ?st v v w"
  proof (intro allI impI)
    fix w assume w: "w \<notin> set ss"
    show "edges_ok g ?st v v w"
    proof (cases "w = s")
      case True
      with vis show ?thesis by (auto simp: edges_ok_def low_lowerLink num_def)
    next
      case False
      with w own show ?thesis by (auto intro: edges_ok_lowerLink)
    qed
  qed
  from inv' vs sub r lo' wit' ab' own' show ?thesis
    by (simp add: loop_inv_def)
qed

lemma loop_step_finished:
  assumes li: "loop_inv g v (s # ss) st" and vis: "indices st s \<noteq> None"
    and off: "s \<notin> onStack st"
  shows "loop_inv g v ss st"
proof -
  from li have inv: "tarjan_inv g st"
    and own: "\<forall>w. w \<notin> set (s # ss) \<longrightarrow> edges_ok g st v v w"
    by (simp_all add: loop_inv_def)
  from inv off have ns: "s \<notin> set (stack st)" by (simp add: tarjan_inv_def wf_state_def)
  have "\<forall>w. w \<notin> set ss \<longrightarrow> edges_ok g st v v w"
  proof (intro allI impI)
    fix w assume w: "w \<notin> set ss"
    show "edges_ok g st v v w"
    proof (cases "w = s")
      case True
      with vis ns show ?thesis by (auto simp: edges_ok_def)
    next
      case False
      with w own show ?thesis by auto
    qed
  qed
  with li show ?thesis by (simp add: loop_inv_def)
qed

lemma loop_step_call:
  assumes li: "loop_inv g v (s # ss) st" and unv: "indices st s = None"
  shows "pre_sc g s st"
proof -
  from li have e: "(v, s) \<in> edgeSet g" by (simp add: loop_inv_def successors_iff)
  from li have "\<forall>x\<in>set (stack st). reachable g x v" by (simp add: loop_inv_def)
  then have "\<forall>x\<in>set (stack st). reachable g x s"
    using reachable_edge[OF e] by (blast intro: reachable_trans)
  with li unv show ?thesis by (auto simp: pre_sc_def loop_inv_def)
qed

lemma edges_ok_frame:
  assumes "edges_ok g st v u w" and "frame X st st'" and "lnk st' v \<le> lnk st v"
  shows "edges_ok g st' v u w"
proof (cases "(u, w) \<in> edgeSet g")
  case True
  with assms(1) have w: "w \<in> dom (indices st)"
    and s: "w \<in> set (stack st) \<longrightarrow> lnk st v \<le> num st w"
    by (simp_all add: edges_ok_def)
  from w frame_dom[OF assms(2)] have "w \<in> dom (indices st')" by blast
  moreover have "w \<in> set (stack st') \<longrightarrow> lnk st' v \<le> num st' w"
    using s assms(3) frame_stack_old[OF assms(2) w] frame_num[OF assms(2) w] by auto
  ultimately show ?thesis by (simp add: edges_ok_def)
next
  case False
  then show ?thesis by (simp add: edges_ok_def)
qed

lemma edges_ok_lower:
  assumes "edges_ok g st s u w" and "lnk st v \<le> lnk st s"
  shows "edges_ok g st v u w"
  using assms by (auto simp: edges_ok_def)

lemma above_append:
  assumes "v \<notin> set N"
  shows "above v (st\<lparr>stack := N @ xs\<rparr>) = set N \<union> set (takeWhile (\<lambda>x. x \<noteq> v) xs)"
  using assms by (auto simp: above_def takeWhile_append)

lemma above_stack_append:
  assumes "stack st' = N @ stack st" and "v \<notin> set N"
  shows "above v st' = set N \<union> above v st"
  using assms by (auto simp: above_def takeWhile_append)

lemma loop_step_return:
  assumes li: "loop_inv g v (s # ss) st" and unv: "indices st s = None"
    and post: "post_sc g s st st'"
  shows "loop_inv g v ss (lowerLink v (the (lowLinks st' s)) st')
    \<and> frame {v} st (lowerLink v (the (lowLinks st' s)) st')"
proof -
  let ?k = "the (lowLinks st' s)"
  let ?st = "lowerLink v ?k st'"
  have k: "?k = lnk st' s" by (simp add: lnk_def)
  from li have inv: "tarjan_inv g st" and vs: "v \<in> set (stack st)"
    and sub: "set (s # ss) \<subseteq> set (successors g v)"
    and r: "\<forall>x\<in>set (stack st). reachable g x v"
    and lo: "lnk st v \<le> num st v"
    and wit: "\<exists>w\<in>set (stack st). num st w = lnk st v \<and> reachable g v w"
    and ab: "\<forall>u\<in>above v st. \<forall>w. edges_ok g st v u w"
    and own: "\<forall>w. w \<notin> set (s # ss) \<longrightarrow> edges_ok g st v v w"
    by (simp_all add: loop_inv_def)
  from inv have wf: "wf_state st" by (simp add: tarjan_inv_def)
  have vd: "v \<in> dom (indices st)" using li by (rule loop_inv_stack)
  from sub have e: "(v, s) \<in> edgeSet g" by (simp add: successors_iff)
  from post have inv': "tarjan_inv g st'" and fr: "frame {} st st'"
    and idx: "indices st' s = Some (index st)"
    by (simp_all add: post_sc_def)
  have nums: "num st' s = index st" using idx by (simp add: num_def)
  from fr obtain N0 where st0: "stack st' = N0 @ stack st"
    and new0: "set N0 \<inter> dom (indices st) = {}"
    by (auto simp: frame_def)
  have vd': "v \<in> dom (indices st')" using frame_dom[OF fr] vd by blast
  have numv: "num st' v = num st v" using fr vd by (rule frame_num)
  have lowv: "lnk st' v = lnk st v" using fr vd by (rule frame_low) simp
  have numv_lt: "num st v < index st" using wf vs by (rule stack_num_less)
  have fr': "frame {v} st ?st"
    using fr frame_lowerLink[of v "{v}" st' ?k] by (rule frame_trans) simp_all
  have dec: "lnk ?st v \<le> lnk st v" by (simp add: low_lowerLink lowv)
  have dec_s: "lnk ?st v \<le> lnk st' s" by (simp add: low_lowerLink k)
  have inv'': "tarjan_inv g ?st" using inv' vd' by (rule tarjan_inv_lowerLink)
  have vs'': "v \<in> set (stack ?st)" using vs st0 by simp
  have lo'': "lnk ?st v \<le> num ?st v" using lo numv lowv by (simp add: low_lowerLink)
  have st_old: "\<And>x. x \<in> set (stack st) \<Longrightarrow> num ?st x = num st x"
    using frame_num[OF fr] stack_visited[OF wf] by simp
  from post consider
      (popped) "stack st' = stack st" "lnk st' s = index st"
    | (kept) N where "stack st' = N @ s # stack st" "lnk st' s < index st"
        "\<exists>w\<in>set (stack st). num st w = lnk st' s \<and> reachable g s w"
        "\<forall>u\<in>set (N @ [s]). reachable g u s"
        "\<forall>u\<in>set (N @ [s]). \<forall>w. edges_ok g st' s u w"
    by (auto simp: post_sc_def)
  then have main: "(\<forall>x\<in>set (stack ?st). reachable g x v)
      \<and> (\<exists>w\<in>set (stack ?st). num ?st w = lnk ?st v \<and> reachable g v w)
      \<and> (\<forall>u\<in>above v ?st. \<forall>w. edges_ok g ?st v u w)
      \<and> edges_ok g ?st v v s"
  proof cases
    case popped
    have a: "\<forall>x\<in>set (stack ?st). reachable g x v" using r popped(1) by simp
    have "lnk ?st v = lnk st v"
      using popped(2) lo numv_lt by (simp add: low_lowerLink lowv k)
    moreover from wit obtain w where "w \<in> set (stack st)" "num st w = lnk st v"
      "reachable g v w" by blast
    ultimately have b: "\<exists>w\<in>set (stack ?st). num ?st w = lnk ?st v \<and> reachable g v w"
      using popped(1) st_old by (intro bexI[of _ w]) simp_all
    have "above v ?st = above v st" using popped(1) by (simp add: above_def)
    with ab have c: "\<forall>u\<in>above v ?st. \<forall>w. edges_ok g ?st v u w"
      using edges_ok_frame[OF _ fr' dec] by auto
    have "s \<notin> set (stack ?st)"
      using popped(1) unv stack_visited[OF wf, of s] by auto
    with idx have d: "edges_ok g ?st v v s" by (auto simp: edges_ok_def)
    from a b c d show ?thesis by blast
  next
    case (kept N)
    from kept(1) st0 have N0: "N0 = N @ [s]" by simp
    from kept(3) obtain w0 where w0: "w0 \<in> set (stack st)" "num st w0 = lnk st' s"
      "reachable g s w0" by blast
    have sv: "reachable g s v" using w0 r by (blast intro: reachable_trans)
    have a: "\<forall>x\<in>set (stack ?st). reachable g x v"
    proof
      fix x assume "x \<in> set (stack ?st)"
      then have "x \<in> set (N @ [s]) \<or> x \<in> set (stack st)" using kept(1) by auto
      then show "reachable g x v"
        using kept(4) sv r by (blast intro: reachable_trans)
    qed
    have b: "\<exists>w\<in>set (stack ?st). num ?st w = lnk ?st v \<and> reachable g v w"
    proof (cases "lnk st v \<le> lnk st' s")
      case True
      then have "lnk ?st v = lnk st v" by (simp add: low_lowerLink lowv k)
      moreover from wit obtain w where "w \<in> set (stack st)" "num st w = lnk st v"
        "reachable g v w" by blast
      ultimately show ?thesis using st0 st_old by (intro bexI[of _ w]) simp_all
    next
      case False
      then have "lnk ?st v = lnk st' s" by (simp add: low_lowerLink lowv k)
      moreover have "reachable g v w0"
        using reachable_edge[OF e] w0(3) by (rule reachable_trans)
      ultimately show ?thesis using w0 st0 st_old by (intro bexI[of _ w0]) simp_all
    qed
    have vN: "v \<notin> set (N @ [s])" using new0 vd N0 by auto
    have "stack ?st = (N @ [s]) @ stack st" using kept(1) by simp
    then have abv: "above v ?st = set (N @ [s]) \<union> above v st"
      using vN by (rule above_stack_append)
    have c: "\<forall>u\<in>above v ?st. \<forall>w. edges_ok g ?st v u w"
    proof (intro ballI allI)
      fix u w assume "u \<in> above v ?st"
      with abv have "u \<in> set (N @ [s]) \<or> u \<in> above v st" by blast
      then show "edges_ok g ?st v u w"
      proof
        assume "u \<in> set (N @ [s])"
        with kept(5) have "edges_ok g st' s u w" by blast
        then have "edges_ok g ?st s u w"
          by (auto simp: edges_ok_def low_lowerLink dest: frame_dom[OF fr, THEN subsetD])
        moreover have "lnk ?st v \<le> lnk ?st s"
          using dec_s by (auto simp: low_lowerLink)
        ultimately show ?thesis by (rule edges_ok_lower)
      next
        assume "u \<in> above v st"
        with ab have "edges_ok g st v u w" by blast
        then show ?thesis using fr' dec by (rule edges_ok_frame)
      qed
    qed
    have "lnk ?st v \<le> num ?st s"
      using dec_s kept(2) nums by simp
    with idx have d: "edges_ok g ?st v v s" by (auto simp: edges_ok_def)
    from a b c d show ?thesis by blast
  qed
  have own'': "\<forall>w. w \<notin> set ss \<longrightarrow> edges_ok g ?st v v w"
  proof (intro allI impI)
    fix w assume w: "w \<notin> set ss"
    show "edges_ok g ?st v v w"
    proof (cases "w = s")
      case True
      with main show ?thesis by simp
    next
      case False
      with w own have "edges_ok g st v v w" by simp
      then show ?thesis using fr' dec by (rule edges_ok_frame)
    qed
  qed
  from sub have sub': "set ss \<subseteq> set (successors g v)" by simp
  from inv'' vs'' sub' lo'' main own'' have "loop_inv g v ss ?st"
    by (simp add: loop_inv_def)
  with fr' show ?thesis by simp
qed

subsection \<open>Leaving a node\<close>

lemma popScc_eq:
  "v \<notin> set N \<Longrightarrow> popScc v (N @ v # old) acc = (acc @ N @ [v], old)"
  by (induction N arbitrary: acc) auto

lemma finishNode_keep: "lowLinks st v \<noteq> indices st v \<Longrightarrow> finishNode v st = st"
  by (simp add: finishNode_def)

lemma finishNode_pop:
  assumes "lowLinks st v = indices st v" and "stack st = N @ v # old" and "v \<notin> set N"
  shows "finishNode v st =
     st\<lparr>stack := old, onStack := onStack st - set (N @ [v]),
        sccs := (if N \<noteq> [] then sccs st @ [v # rev N] else sccs st)\<rparr>"
  using assms popScc_eq[of v N old "[]"]
  by (cases N) (simp_all add: finishNode_def)

lemma frame_after_enter:
  assumes nv: "v \<notin> dom (indices st)" and fr: "frame {v} (enterNode v st) st1"
  shows "frame {} st st1
    \<and> (\<exists>N. stack st1 = N @ v # stack st \<and> v \<notin> set N)
    \<and> indices st1 v = Some (index st)"
proof -
  from fr obtain N cs where s: "stack st1 = N @ stack (enterNode v st)"
    and n: "set N \<inter> dom (indices (enterNode v st)) = {}"
    and c: "sccs st1 = sccs (enterNode v st) @ cs"
    by (auto simp: frame_def)
  from n have vN: "v \<notin> set N" and nN: "set N \<inter> dom (indices st) = {}" by auto
  have i: "\<forall>x\<in>dom (indices st). indices st1 x = indices st x"
    using fr nv by (auto simp: frame_def)
  have l: "\<forall>x\<in>dom (indices st) - {}. lowLinks st1 x = lowLinks st x"
    using fr nv by (auto simp: frame_def)
  have "stack st1 = (N @ [v]) @ stack st" using s by simp
  moreover have "set (N @ [v]) \<inter> dom (indices st) = {}" using nN nv by auto
  moreover have "sccs st1 = sccs st @ cs" using c by simp
  ultimately have "frame {} st st1" using i l unfolding frame_def by blast
  moreover have "indices st1 v = Some (index st)" using fr by (simp add: frame_def)
  ultimately show ?thesis using s vN by auto
qed

text \<open>In a well-formed stack the nodes above \<open>v\<close> have larger indices, those below smaller.\<close>

lemma stack_order:
  assumes "wf_state st" and "stack st = N @ v # old"
  shows "(\<forall>u\<in>set N. num st v < num st u) \<and> (\<forall>w\<in>set old. num st w < num st v)
    \<and> v \<notin> set N \<and> v \<notin> set old \<and> set N \<inter> set old = {}"
  using assms by (auto simp: wf_state_def sorted_wrt_append)

lemma above_split:
  assumes "stack st = N @ v # old" and "v \<notin> set N"
  shows "above v st = set N"
  using assms by (simp add: above_def takeWhile_append)

lemma finish_keep:
  assumes pre: "pre_sc g v st" and li: "loop_inv g v [] st1"
    and fr: "frame {v} (enterNode v st) st1" and ne: "lowLinks st1 v \<noteq> indices st1 v"
  shows "post_sc g v st (finishNode v st1)"
proof -
  from pre have nv: "v \<notin> dom (indices st)" by (simp add: pre_sc_def)
  from frame_after_enter[OF nv fr] obtain N where fr0: "frame {} st st1"
    and s: "stack st1 = N @ v # stack st" and vN: "v \<notin> set N"
    and iv: "indices st1 v = Some (index st)"
    by blast
  from li have inv: "tarjan_inv g st1"
    and r: "\<forall>x\<in>set (stack st1). reachable g x v"
    and lo: "lnk st1 v \<le> num st1 v"
    and wit: "\<exists>w\<in>set (stack st1). num st1 w = lnk st1 v \<and> reachable g v w"
    and ab: "\<forall>u\<in>above v st1. \<forall>w. edges_ok g st1 v u w"
    and own: "\<forall>w. edges_ok g st1 v v w"
    by (simp_all add: loop_inv_def)
  from inv have wf: "wf_state st1" by (simp add: tarjan_inv_def)
  have numv: "num st1 v = index st" using iv by (simp add: num_def)
  from wf have "v \<in> dom (lowLinks st1)" using iv by (auto simp: wf_state_def)
  with ne iv have neq: "lnk st1 v \<noteq> num st1 v" by (auto simp: lnk_def num_def)
  with lo numv have lt: "lnk st1 v < index st" by simp
  from wit obtain w where w: "w \<in> set (stack st1)" "num st1 w = lnk st1 v" "reachable g v w"
    by blast
  from stack_order[OF wf s] w(2) lt numv neq w(1) s have wold: "w \<in> set (stack st)"
    by auto
  from pre have "wf_state st" by (simp add: pre_sc_def tarjan_inv_def)
  then have "w \<in> dom (indices st)" using wold by (rule stack_visited)
  with fr0 have "num st1 w = num st w" by (rule frame_num)
  with w wold have wit': "\<exists>w\<in>set (stack st). num st w = lnk st1 v \<and> reachable g v w"
    by auto
  have r': "\<forall>u\<in>set (N @ [v]). reachable g u v" using r s by auto
  have "above v st1 = set N" using s vN by (rule above_split)
  with ab own have e': "\<forall>u\<in>set (N @ [v]). \<forall>w. edges_ok g st1 v u w" by auto
  from inv fr0 iv s lt wit' r' e' have "post_sc g v st st1"
    unfolding post_sc_def by blast
  with ne show ?thesis by (simp add: finishNode_keep)
qed

lemma finish_pop:
  assumes pre: "pre_sc g v st" and li: "loop_inv g v [] st1"
    and fr: "frame {v} (enterNode v st) st1" and eq: "lowLinks st1 v = indices st1 v"
  shows "post_sc g v st (finishNode v st1)"
proof -
  from pre have nv: "v \<notin> dom (indices st)" by (simp add: pre_sc_def)
  from frame_after_enter[OF nv fr] obtain N where fr0: "frame {} st st1"
    and s: "stack st1 = N @ v # stack st" and vN: "v \<notin> set N"
    and iv: "indices st1 v = Some (index st)"
    by blast
  from li have inv: "tarjan_inv g st1"
    and r: "\<forall>x\<in>set (stack st1). reachable g x v"
    and ab: "\<forall>u\<in>above v st1. \<forall>w. edges_ok g st1 v u w"
    and own: "\<forall>w. edges_ok g st1 v v w"
    by (simp_all add: loop_inv_def)
  from inv have wf: "wf_state st1" and sr: "stack_reach g st1"
    and fc: "finished_closed g st1" and so: "sccs_sound g st1" and sc: "sccs_complete g st1"
    by (simp_all add: tarjan_inv_def)
  define G where "G = set (N @ [v])"
  define st2 where "st2 = finishNode v st1"
  have st2: "st2 = st1\<lparr>stack := stack st, onStack := onStack st1 - G,
        sccs := (if N \<noteq> [] then sccs st1 @ [v # rev N] else sccs st1)\<rparr>"
    unfolding st2_def G_def using eq s vN by (rule finishNode_pop)
  have fields: "indices st2 = indices st1" "lowLinks st2 = lowLinks st1"
    "stack st2 = stack st" "index st2 = index st1" "onStack st2 = onStack st1 - G"
    "sccs st2 = (if N \<noteq> [] then sccs st1 @ [v # rev N] else sccs st1)"
    by (simp_all add: st2)
  have num2: "num st2 = num st1" by (simp add: num_def fun_eq_iff fields)
  have lnk2: "lnk st2 = lnk st1" by (simp add: lnk_def fun_eq_iff fields)
  have numv: "num st1 v = index st" using iv by (simp add: num_def)
  have lnkv: "lnk st1 v = index st" using eq iv by (simp add: lnk_def)
  note ord = stack_order[OF wf s]
  have Gstack: "set (stack st1) = G \<union> set (stack st)" using s by (auto simp: G_def)
  have Gdisj: "G \<inter> set (stack st) = {}" using ord by (auto simp: G_def)
  have Gvis: "G \<subseteq> dom (indices st1)" using wf Gstack by (auto simp: wf_state_def)
  have fin2: "finished st2 = finished st1 \<union> G"
    using Gstack Gdisj Gvis by (auto simp: finished_def fields)
  have abv: "above v st1 = set N" using s vN by (rule above_split)
  have Gedges: "\<forall>u\<in>G. \<forall>w. edges_ok g st1 v u w"
    using ab own abv by (auto simp: G_def)

  have wf2: "wf_state st2"
  proof -
    have "onStack st2 = set (stack st2)"
      using wf Gstack Gdisj by (auto simp: wf_state_def fields)
    moreover have "distinct (stack st2)" using wf s by (simp add: wf_state_def fields)
    moreover have "set (stack st2) \<subseteq> dom (indices st2)"
      using wf Gstack by (auto simp: wf_state_def fields)
    moreover have "sorted_wrt (\<lambda>x y. num st2 y < num st2 x) (stack st2)"
      using wf s by (simp add: wf_state_def fields num2 sorted_wrt_append)
    ultimately show ?thesis using wf by (simp add: wf_state_def fields)
  qed
  have sr2: "stack_reach g st2"
    using sr Gstack by (simp add: stack_reach_def fields num2)
  have fc2: "finished_closed g st2"
    unfolding finished_closed_def
  proof (intro ballI allI impI)
    fix x w assume x: "x \<in> finished st2" and e: "(x, w) \<in> edgeSet g"
    from x fin2 have "x \<in> finished st1 \<or> x \<in> G" by blast
    then show "w \<in> finished st2"
    proof
      assume "x \<in> finished st1"
      with fc e have "w \<in> finished st1" by (auto simp: finished_closed_def)
      with fin2 show ?thesis by blast
    next
      assume "x \<in> G"
      with Gedges e have wv: "w \<in> dom (indices st1)"
        and ws: "w \<in> set (stack st1) \<longrightarrow> lnk st1 v \<le> num st1 w"
        by (auto simp: edges_ok_def)
      have "w \<notin> set (stack st)"
      proof
        assume wo: "w \<in> set (stack st)"
        with ord have "num st1 w < num st1 v" by blast
        moreover from wo ws Gstack have "lnk st1 v \<le> num st1 w" by blast
        ultimately show False using numv lnkv by simp
      qed
      with wv show ?thesis by (simp add: finished_def fields)
    qed
  qed
  have comp: "component g v = G"
  proof
    show "component g v \<subseteq> G"
    proof
      fix y assume "y \<in> component g v"
      then have vy: "reachable g v y" and yv: "reachable g y v"
        by (simp_all add: component_def)
      have "v \<in> finished st2" using fin2 by (simp add: G_def)
      with vy fc2 have "y \<in> finished st2"
        by (intro closed_reachable[of g v y]) (auto simp: finished_closed_def)
      moreover have "y \<notin> finished st1"
      proof
        assume "y \<in> finished st1"
        with yv fc have "v \<in> finished st1"
          by (intro closed_reachable[of g y v]) (auto simp: finished_closed_def)
        then show False using s by (simp add: finished_def)
      qed
      ultimately show "y \<in> G" using fin2 by blast
    qed
    show "G \<subseteq> component g v"
    proof
      fix u assume u: "u \<in> G"
      with Gstack r have uv: "reachable g u v" by blast
      have vu: "reachable g v u"
      proof (cases "u = v")
        case True
        then show ?thesis by simp
      next
        case False
        with u have "u \<in> set N" by (simp add: G_def)
        with ord have "num st1 v \<le> num st1 u" by auto
        with sr u Gstack show ?thesis
          by (auto simp: stack_reach_def G_def)
      qed
      from uv vu show "u \<in> component g v" by (simp add: component_def)
    qed
  qed
  have so2: "sccs_sound g st2"
  proof -
    from so have d1: "distinct (map set (sccs st1))"
      and old: "\<forall>c\<in>set (sccs st1). 2 \<le> length c \<and> distinct c \<and> set c \<subseteq> finished st1
            \<and> (\<exists>x\<in>set c. set c = component g x)"
      by (simp_all add: sccs_sound_def)
    have old2: "\<forall>c\<in>set (sccs st1). 2 \<le> length c \<and> distinct c \<and> set c \<subseteq> finished st2
            \<and> (\<exists>x\<in>set c. set c = component g x)"
      using old fin2 by blast
    show ?thesis
    proof (cases "N = []")
      case True
      with d1 old2 show ?thesis by (simp add: sccs_sound_def fields)
    next
      case False
      have sG: "set (v # rev N) = G" by (auto simp: G_def)
      have "G \<notin> set ` set (sccs st1)"
      proof
        assume "G \<in> set ` set (sccs st1)"
        then obtain c where "c \<in> set (sccs st1)" "set c = G" by auto
        with old have "G \<subseteq> finished st1" by auto
        then show False using s by (auto simp: G_def finished_def)
      qed
      then have d2: "distinct (map set (sccs st1 @ [v # rev N]))"
        using d1 sG by simp
      have "2 \<le> length (v # rev N)" using False by (cases N) simp_all
      moreover have "distinct (v # rev N)" using wf s vN by (simp add: wf_state_def)
      moreover have "set (v # rev N) \<subseteq> finished st2" using sG fin2 by simp
      moreover have "\<exists>x\<in>set (v # rev N). set (v # rev N) = component g x"
        using comp sG by auto
      ultimately show ?thesis using False d2 old2
        by (simp add: sccs_sound_def fields)
    qed
  qed
  have sc2: "sccs_complete g st2"
    unfolding sccs_complete_def
  proof (intro ballI impI)
    fix x assume x: "x \<in> finished st2" and ex: "\<exists>y. y \<noteq> x \<and> y \<in> component g x"
    from x fin2 have "x \<in> finished st1 \<or> x \<in> G" by blast
    then show "\<exists>c\<in>set (sccs st2). x \<in> set c"
    proof
      assume "x \<in> finished st1"
      with sc ex obtain c where "c \<in> set (sccs st1)" "x \<in> set c"
        by (auto simp: sccs_complete_def)
      then show ?thesis by (auto simp: fields)
    next
      assume xG: "x \<in> G"
      with comp have "component g x = G" using component_eq[of x g v] by simp
      with ex obtain y where "y \<noteq> x" "y \<in> G" by auto
      with xG have "N \<noteq> []" by (auto simp: G_def)
      with xG show ?thesis by (auto simp: fields G_def)
    qed
  qed
  have inv2: "tarjan_inv g st2"
    using wf2 sr2 fc2 so2 sc2 by (simp add: tarjan_inv_def)
  have fr2: "frame {} st st2"
  proof -
    from fr0 have "\<forall>x\<in>dom (indices st). indices st2 x = indices st x"
      and "\<forall>x\<in>dom (indices st) - {}. lowLinks st2 x = lowLinks st x"
      by (simp_all add: frame_def fields)
    moreover have "stack st2 = [] @ stack st \<and> set [] \<inter> dom (indices st) = {}"
      by (simp add: fields)
    moreover from fr0 obtain cs where "sccs st1 = sccs st @ cs" by (auto simp: frame_def)
    then have "\<exists>cs. sccs st2 = sccs st @ cs" by (simp add: fields)
    ultimately show ?thesis unfolding frame_def by blast
  qed
  have "indices st2 v = Some (index st)" using iv by (simp add: fields)
  moreover have "stack st2 = stack st \<and> lnk st2 v = index st"
    using lnkv by (simp add: fields lnk2)
  ultimately have "post_sc g v st st2"
    using inv2 fr2 unfolding post_sc_def by blast
  then show ?thesis by (simp add: st2_def)
qed

declare strongConnect.simps [simp del] visitSuccessors.simps [simp del]

lemma tarjan_step:
  "pre_sc g v st \<Longrightarrow> post_sc g v st (strongConnect g v st)"
  "loop_inv g v ss st \<Longrightarrow> post_vs g v st (visitSuccessors g v ss st)"
proof (induction g v st and g v ss st rule: strongConnect_visitSuccessors.induct)
  case (1 g node st)
  let ?st1 = "visitSuccessors g node (successors g node) (enterNode node st)"
  from 1(2) have "loop_inv g node (successors g node) (enterNode node st)"
    by (rule loop_inv_enterNode)
  then have "post_vs g node (enterNode node st) ?st1" by (rule 1(1))
  then have li: "loop_inv g node [] ?st1" and fr: "frame {node} (enterNode node st) ?st1"
    by (simp_all add: post_vs_def)
  have "post_sc g node st (finishNode node ?st1)"
  proof (cases "lowLinks ?st1 node = indices ?st1 node")
    case True
    with 1(2) li fr show ?thesis by (rule finish_pop)
  next
    case False
    with 1(2) li fr show ?thesis by (rule finish_keep)
  qed
  then show ?case by (simp add: strongConnect.simps)
next
  case (2 g node st)
  then show ?case by (simp add: post_vs_def visitSuccessors.simps)
next
  case (3 g node s ss st)
  show ?case
  proof (cases "indices st s = None")
    case True
    let ?st' = "strongConnect g s st"
    let ?st'' = "lowerLink node (the (lowLinks ?st' s)) ?st'"
    from 3(5) True have "pre_sc g s st" by (rule loop_step_call)
    then have "post_sc g s st ?st'" using True by (intro 3(1))
    with 3(5) True have li: "loop_inv g node ss ?st''" and fr: "frame {node} st ?st''"
      using loop_step_return[of g node s ss st ?st'] by simp_all
    from li have "post_vs g node ?st'' (visitSuccessors g node ss ?st'')"
      using True by (intro 3(2)) simp_all
    then have "loop_inv g node [] (visitSuccessors g node ss ?st'')"
      and "frame {node} ?st'' (visitSuccessors g node ss ?st'')"
      by (simp_all add: post_vs_def)
    with fr have "post_vs g node st (visitSuccessors g node ss ?st'')"
      using frame_trans[of "{node}" st ?st'' "{node}" _ "{node}"] by (simp add: post_vs_def)
    with True show ?thesis by (simp add: visitSuccessors.simps(2)[of g node s ss st] Let_def)
  next
    case False
    show ?thesis
    proof (cases "s \<in> onStack st")
      case True
      let ?st'' = "lowerLink node (the (indices st s)) st"
      from 3(5) False True have li: "loop_inv g node ss ?st''" by (rule loop_step_onstack)
      then have "post_vs g node ?st'' (visitSuccessors g node ss ?st'')"
        using False True by (intro 3(3))
      then have "loop_inv g node [] (visitSuccessors g node ss ?st'')"
        and "frame {node} ?st'' (visitSuccessors g node ss ?st'')"
        by (simp_all add: post_vs_def)
      moreover have "frame {node} st ?st''" by (rule frame_lowerLink) simp
      ultimately have "post_vs g node st (visitSuccessors g node ss ?st'')"
        using frame_trans[of "{node}" st ?st'' "{node}" _ "{node}"] by (simp add: post_vs_def)
      with False True show ?thesis by (auto simp: visitSuccessors.simps(2)[of g node s ss st])
    next
      case off: False
      from 3(5) False off have "loop_inv g node ss st" by (rule loop_step_finished)
      then have "post_vs g node st (visitSuccessors g node ss st)"
        using False off by (intro 3(4))
      with False off show ?thesis by (auto simp: visitSuccessors.simps(2)[of g node s ss st])
    qed
  qed
qed

lemma tarjan_inv_initial: "tarjan_inv g initialState"
  by (simp add: tarjan_inv_def wf_state_def stack_reach_def finished_closed_def
      sccs_sound_def sccs_complete_def finished_def initialState_def)

lemma visitRoot_inv:
  assumes "tarjan_inv g st" and "stack st = []"
  shows "tarjan_inv g (visitRoot g st v) \<and> stack (visitRoot g st v) = []
    \<and> insert v (dom (indices st)) \<subseteq> dom (indices (visitRoot g st v))"
proof (cases "indices st v = None")
  case True
  with assms have "pre_sc g v st" by (auto simp: pre_sc_def)
  then have post: "post_sc g v st (strongConnect g v st)" by (rule tarjan_step)
  with assms(2) have "stack (strongConnect g v st) = []"
    by (auto simp: post_sc_def)
  moreover from post have "dom (indices st) \<subseteq> dom (indices (strongConnect g v st))"
    by (auto simp: post_sc_def dest: frame_dom)
  moreover from post have "v \<in> dom (indices (strongConnect g v st))"
    by (auto simp: post_sc_def)
  ultimately show ?thesis using post True by (simp add: visitRoot_def post_sc_def)
next
  case False
  with assms show ?thesis by (auto simp: visitRoot_def)
qed

lemma foldl_visitRoot_inv:
  assumes "tarjan_inv g st" and "stack st = []"
  shows "tarjan_inv g (foldl (visitRoot g) st vs) \<and> stack (foldl (visitRoot g) st vs) = []
    \<and> dom (indices st) \<union> set vs \<subseteq> dom (indices (foldl (visitRoot g) st vs))"
  using assms
proof (induction vs arbitrary: st)
  case Nil
  then show ?case by simp
next
  case (Cons v vs)
  from visitRoot_inv[OF Cons.prems, of v]
  have a: "tarjan_inv g (visitRoot g st v)" and b: "stack (visitRoot g st v) = []"
    and c: "insert v (dom (indices st)) \<subseteq> dom (indices (visitRoot g st v))"
    by simp_all
  from Cons.IH[OF a b] c show ?case by auto
qed

lemma finalState_props:
  "tarjan_inv g (finalState g)" "stack (finalState g) = []"
  "set (nodes g) \<subseteq> finished (finalState g)"
  using foldl_visitRoot_inv[OF tarjan_inv_initial, of g "nodes g"]
  by (auto simp: finalState_def finished_def initialState_def)

lemma nontrivial_component_source:
  assumes "y \<in> component g x" and "y \<noteq> x"
  shows "\<exists>w. (x, w) \<in> edgeSet g"
proof -
  from assms have "(x, y) \<in> (edgeSet g)\<^sup>*" by (simp add: component_def reachable_def)
  with assms(2) show ?thesis by (metis converse_rtranclE)
qed

lemma scc_sound:
  "distinct (map set (findStronglyConnectedComponents g))
   \<and> (\<forall>c\<in>set (findStronglyConnectedComponents g).
        2 \<le> length c \<and> distinct c \<and> (\<exists>x\<in>set c. set c = component g x))"
  using finalState_props(1)[of g]
  by (simp add: findStronglyConnectedComponents_def finalState_def[symmetric] tarjan_inv_def
      sccs_sound_def)

lemma scc_complete:
  assumes "wf_graph g" and "y \<in> component g x" and "y \<noteq> x"
  shows "\<exists>c\<in>set (findStronglyConnectedComponents g). x \<in> set c"
proof -
  from nontrivial_component_source[OF assms(2,3)] obtain w where "(x, w) \<in> edgeSet g" ..
  with assms(1) have "x \<in> set (nodes g)"
    by (auto simp: wf_graph_def edgeSet_def nodes_def)
  with finalState_props(3) have "x \<in> finished (finalState g)" by blast
  moreover have "sccs_complete g (finalState g)"
    using finalState_props(1) by (simp add: tarjan_inv_def)
  ultimately show ?thesis using assms(2,3)
    by (auto simp: sccs_complete_def findStronglyConnectedComponents_def finalState_def)
qed

lemma wf_graph_buildGraph: "wf_graph (buildGraph rels)"
  by (auto simp: wf_graph_def buildGraph_def foldl_addRelationship_edgeKeys
      foldl_addRelationship_nodeKeys foldl_addRelationship_distinct_nodes emptyGraph_def)

lemma edgeKeys_ensureFileNode [simp]: "edgeKeys (ensureFileNode g f) = edgeKeys g"
  by (simp add: ensureFileNode_def)

lemma edgeKeys_foldl_ensureFileNode [simp]:
  "edgeKeys (foldl ensureFileNode g fs) = edgeKeys g"
  by (induction fs arbitrary: g) simp_all

lemma wf_graph_graphOfFiles: "wf_graph (graphOfFiles files rels)"
  using wf_graph_buildGraph[of rels]
  by (auto simp: wf_graph_def graphOfFiles_def foldl_ensureFileNode_nodeKeys
      foldl_ensureFileNode_distinct)

lemma filter_none:
  assumes "\<forall>d\<in>set xs. \<not> Q d"
  shows "filter Q xs = []"
  using assms by (induction xs) simp_all

lemma filter_single:
  assumes "distinct (map f xs)" and "c \<in> set xs" and "Q c"
    and "\<forall>d\<in>set xs. Q d \<longrightarrow> f d = f c"
  shows "filter Q xs = [c]"
  using assms
proof (induction xs)
  case Nil
  then show ?case by simp
next
  case (Cons a xs)
  from Cons.prems(1) have fa: "f a \<notin> f ` set xs" and dist: "distinct (map f xs)"
    by simp_all
  from Cons.prems(4) have all: "\<forall>d\<in>set xs. Q d \<longrightarrow> f d = f c"
    and qa: "Q a \<longrightarrow> f a = f c"
    by simp_all
  show ?case
  proof (cases "a = c")
    case True
    have "\<forall>d\<in>set xs. \<not> Q d"
    proof (intro ballI notI)
      fix d assume d: "d \<in> set xs" "Q d"
      with all have "f d = f c" by blast
      with d(1) have "f c \<in> f ` set xs" by (metis imageI)
      with fa True show False by blast
    qed
    then have "filter Q xs = []" by (rule filter_none)
    with True Cons.prems(3) show ?thesis by (simp only: filter.simps if_True)
  next
    case False
    with Cons.prems(2) have cx: "c \<in> set xs" by simp
    have nq: "\<not> Q a"
    proof
      assume "Q a"
      with qa have "f a = f c" by blast
      with cx have "f a \<in> f ` set xs" by (metis imageI)
      with fa show False by blast
    qed
    have "filter Q xs = [c]"
      using dist cx Cons.prems(3) all by (rule Cons.IH)
    with nq show ?thesis by (simp only: filter.simps if_False)
  qed
qed

lemma set_findCycles:
  "set (findCycles g) = mkCycle g ` set (findStronglyConnectedComponents g)"
  by (simp add: findCycles_def)

lemma filter_findCycles:
  "filter (\<lambda>c. x \<in> set (c_nodes c)) (findCycles g) =
     sort_key (\<lambda>c. severityOrder (c_severity c))
       (map (mkCycle g) (filter (\<lambda>c. x \<in> set c) (findStronglyConnectedComponents g)))"
  by (simp add: findCycles_def filter_sort filter_map o_def mkCycle_def)

section \<open>Claims about findCycles\<close>

text \<open>
  C1: for every graph of the builder, every reported cycle has at least two nodes, its
  \<^verbatim>\<open>length\<close> is their number, and its nodes are exactly a strongly connected
  component; a node with another node in its component lies in exactly one reported
  cycle, which is its component (so two files importing each other and nothing else are
  one cycle of length 2); a node alone in its component, self-import or not, lies in no
  reported cycle.
\<close>

theorem findCycles_reports_components:
  assumes "wf_graph g"
  shows "(\<forall>c\<in>set (findCycles g).
            c_length c = length (c_nodes c) \<and> 2 \<le> length (c_nodes c) \<and> distinct (c_nodes c)
            \<and> (\<exists>x\<in>set (c_nodes c). set (c_nodes c) = component g x))
    \<and> (\<forall>x y. y \<in> component g x \<and> y \<noteq> x \<longrightarrow>
          (\<exists>c. filter (\<lambda>c. x \<in> set (c_nodes c)) (findCycles g) = [c]
               \<and> set (c_nodes c) = component g x))
    \<and> (\<forall>x. component g x = {x} \<longrightarrow> (\<forall>c\<in>set (findCycles g). x \<notin> set (c_nodes c)))"
proof -
  let ?S = "findStronglyConnectedComponents g"
  from scc_sound[of g] have d: "distinct (map set ?S)"
    and snd: "\<forall>c\<in>set ?S. 2 \<le> length c \<and> distinct c \<and> (\<exists>x\<in>set c. set c = component g x)"
    by simp_all
  have in_comp: "set c = component g x" if "c \<in> set ?S" "x \<in> set c" for c x
  proof -
    from snd that(1) obtain z where "z \<in> set c" "set c = component g z" by blast
    with that(2) show ?thesis using component_eq[of x g z] by simp
  qed
  have a: "\<forall>c\<in>set (findCycles g).
            c_length c = length (c_nodes c) \<and> 2 \<le> length (c_nodes c) \<and> distinct (c_nodes c)
            \<and> (\<exists>x\<in>set (c_nodes c). set (c_nodes c) = component g x)"
  proof
    fix c assume "c \<in> set (findCycles g)"
    then obtain c0 where c0: "c0 \<in> set ?S" and c: "c = mkCycle g c0"
      by (auto simp: set_findCycles)
    from snd c0 have "2 \<le> length c0" "distinct c0" "\<exists>x\<in>set c0. set c0 = component g x"
      by blast+
    then show "c_length c = length (c_nodes c) \<and> 2 \<le> length (c_nodes c) \<and> distinct (c_nodes c)
            \<and> (\<exists>x\<in>set (c_nodes c). set (c_nodes c) = component g x)"
      by (simp add: c mkCycle_def)
  qed
  have b: "\<exists>c. filter (\<lambda>c. x \<in> set (c_nodes c)) (findCycles g) = [c]
               \<and> set (c_nodes c) = component g x"
    if "y \<in> component g x" "y \<noteq> x" for x y
  proof -
    from scc_complete[OF assms that] obtain c where c: "c \<in> set ?S" "x \<in> set c" by blast
    have "\<forall>d\<in>set ?S. x \<in> set d \<longrightarrow> set d = set c"
      using in_comp c by blast
    with d c have "filter (\<lambda>c. x \<in> set c) ?S = [c]"
      by (intro filter_single[where f = set]) blast+
    then have "filter (\<lambda>c. x \<in> set (c_nodes c)) (findCycles g) = [mkCycle g c]"
      by (simp add: filter_findCycles)
    moreover have "set (c_nodes (mkCycle g c)) = component g x"
      using in_comp[OF c] by (simp add: mkCycle_def)
    ultimately show ?thesis by blast
  qed
  have c: "\<forall>c\<in>set (findCycles g). x \<notin> set (c_nodes c)" if "component g x = {x}" for x
  proof
    fix c assume "c \<in> set (findCycles g)"
    then obtain c0 where c0: "c0 \<in> set ?S" "c = mkCycle g c0" by (auto simp: set_findCycles)
    show "x \<notin> set (c_nodes c)"
    proof
      assume "x \<in> set (c_nodes c)"
      with c0 have x: "x \<in> set c0" by (simp add: mkCycle_def)
      with in_comp[OF c0(1)] that have "set c0 = {x}" by simp
      then have "card (set c0) = 1" by simp
      moreover from snd c0(1) have "2 \<le> length c0" "distinct c0" by blast+
      ultimately show False
        using distinct_card[of c0] by linarith
    qed
  qed
  from a b c show ?thesis by blast
qed

theorem findCycles_reports_components_witness:
  "wf_graph (buildGraph [importRel ''/src/a.ts'' ''/src/b.ts'', importRel ''/src/b.ts'' ''/src/a.ts''])
   \<and> findCycles (buildGraph [importRel ''/src/a.ts'' ''/src/b.ts'', importRel ''/src/b.ts'' ''/src/a.ts''])
       = [\<lparr>c_nodes = [''/src/a.ts'', ''/src/b.ts''], c_length = 2, c_severity = Low\<rparr>]
   \<and> component (buildGraph [importRel ''/src/a.ts'' ''/src/b.ts'', importRel ''/src/b.ts'' ''/src/a.ts''])
        ''/src/a.ts'' = {''/src/a.ts'', ''/src/b.ts''}
   \<and> findCycles (buildGraph [importRel ''/src/a.ts'' ''/src/a.ts'']) = []"
proof -
  let ?g = "buildGraph [importRel ''/src/a.ts'' ''/src/b.ts'', importRel ''/src/b.ts'' ''/src/a.ts'']"
  have w: "wf_graph ?g" by (rule wf_graph_buildGraph)
  have e: "findCycles ?g
      = [\<lparr>c_nodes = [''/src/a.ts'', ''/src/b.ts''], c_length = 2, c_severity = Low\<rparr>]"
    by code_simp
  have s: "findCycles (buildGraph [importRel ''/src/a.ts'' ''/src/a.ts'']) = []"
    by code_simp
  from findCycles_reports_components[OF w]
  have "\<forall>c\<in>set (findCycles ?g). \<exists>x\<in>set (c_nodes c). set (c_nodes c) = component ?g x"
    by blast
  then have "\<exists>x\<in>{''/src/a.ts'', ''/src/b.ts''}. {''/src/a.ts'', ''/src/b.ts''} = component ?g x"
    unfolding e by simp
  then obtain x where x: "{''/src/a.ts'', ''/src/b.ts''} = component ?g x" by blast
  then have "''/src/a.ts'' \<in> component ?g x" by blast
  then have "component ?g ''/src/a.ts'' = component ?g x" by (rule component_eq)
  with x have c: "component ?g ''/src/a.ts'' = {''/src/a.ts'', ''/src/b.ts''}" by simp
  from w e c s show ?thesis by blast
qed

section \<open>Correctness of the topological sort\<close>

declare visit.simps [simp del] visitEach.simps [simp del]

lemma top_frame_refl [simp]: "top_frame st st"
  by (simp add: top_frame_def)

lemma top_frame_trans: "top_frame st st' \<Longrightarrow> top_frame st' st'' \<Longrightarrow> top_frame st st''"
  by (auto simp: top_frame_def)

lemma predecessors_iff: "p \<in> set (predecessors g v) \<longleftrightarrow> (p, v) \<in> edgeSet g"
  by (force simp: predecessors_def edgeSet_def)

lemma topState_fields [simp]:
  "onPath (enterVisit v st) = insert v (onPath st)"
  "results (enterVisit v st) = results st"
  "onPath (leaveVisit v st) = onPath st - {v}"
  "results (leaveVisit v st) = results st @ [v]"
  by (simp_all add: enterVisit_def leaveVisit_def)

lemma top_inv_enter:
  assumes "top_inv g st" and "v \<notin> visited st" and "v \<in> set (nodeKeys g)"
  shows "top_inv g (enterVisit v st)"
  using assms by (auto simp: top_inv_def)

lemma top_inv_leave:
  assumes inv: "top_inv g st" and v: "v \<in> visited st" "v \<in> onPath st"
    and preds: "\<forall>p. (p, v) \<in> edgeSet g \<longrightarrow> p \<in> set (results st)"
  shows "top_inv g (leaveVisit v st)"
proof -
  have a: "set (results (leaveVisit v st)) = visited (leaveVisit v st) - onPath (leaveVisit v st)"
    using inv v by (auto simp: top_inv_def)
  have b: "\<forall>ys y zs. results (leaveVisit v st) = ys @ y # zs \<longrightarrow>
      (\<forall>p. (p, y) \<in> edgeSet g \<longrightarrow> p \<in> set ys)"
  proof (intro allI impI)
    fix ys y zs p
    assume eq: "results (leaveVisit v st) = ys @ y # zs" and e: "(p, y) \<in> edgeSet g"
    show "p \<in> set ys"
    proof (cases zs rule: rev_cases)
      case Nil
      with eq have "ys = results st" "y = v" by simp_all
      with preds e show ?thesis by simp
    next
      case (snoc zs' z)
      with eq have "results st = ys @ y # zs'" by simp
      with inv e show ?thesis by (auto simp: top_inv_def)
    qed
  qed
  from a b inv show ?thesis by (simp add: top_inv_def)
qed

lemma top_step:
  "top_inv g st \<Longrightarrow> wf_graph g \<Longrightarrow> node \<in> set (nodeKeys g) \<Longrightarrow> visit g node st = Some st'
     \<Longrightarrow> top_inv g st' \<and> top_frame st st' \<and> node \<in> set (results st')"
  "top_inv g st \<Longrightarrow> wf_graph g \<Longrightarrow> set ps \<subseteq> set (nodeKeys g) \<Longrightarrow> visitEach g ps st = Some st'
     \<Longrightarrow> top_inv g st' \<and> top_frame st st' \<and> set ps \<subseteq> set (results st')"
proof (induction g node st and g ps st arbitrary: st' and st' rule: visit_visitEach.induct)
  case (1 g node st)
  from 1(5) have np: "node \<notin> onPath st"
    by (auto simp: visit.simps[of g node st] split: if_splits)
  show ?case
  proof (cases "node \<in> visited st")
    case True
    with 1(5) np have "st' = st" by (simp add: visit.simps[of g node st])
    moreover from 1(2) True np have "node \<in> set (results st)" by (simp add: top_inv_def)
    ultimately show ?thesis using 1(2) by simp
  next
    case False
    with 1(5) np obtain st1 where
      v: "visitEach g (predecessors g node) (enterVisit node st) = Some st1"
      and e: "st' = leaveVisit node st1"
      by (auto simp: visit.simps[of g node st] split: option.splits)
    have i1: "top_inv g (enterVisit node st)" using 1(2) False 1(4) by (rule top_inv_enter)
    have sub: "set (predecessors g node) \<subseteq> set (nodeKeys g)"
      using 1(3) by (auto simp: predecessors_def wf_graph_def)
    from 1(1)[OF np False i1 1(3) sub v]
    have i2: "top_inv g st1" and f2: "top_frame (enterVisit node st) st1"
      and p2: "set (predecessors g node) \<subseteq> set (results st1)"
      by simp_all
    from f2 have on: "onPath st1 = insert node (onPath st)"
      and vis: "insert node (visited st) \<subseteq> visited st1"
      by (auto simp: top_frame_def)
    have "top_inv g (leaveVisit node st1)"
      using i2 vis on p2 by (intro top_inv_leave) (auto simp: predecessors_iff)
    moreover have "top_frame st (leaveVisit node st1)"
      using f2 np by (auto simp: top_frame_def)
    ultimately show ?thesis using e by simp
  qed
next
  case (2 g st)
  then show ?case by (simp add: visitEach.simps)
next
  case (3 g p ps st)
  from 3(6) obtain st1 where v: "visit g p st = Some st1"
    and r: "visitEach g ps st1 = Some st'"
    by (auto simp: visitEach.simps(2)[of g p ps st] split: option.splits)
  from 3(5) have pn: "p \<in> set (nodeKeys g)" and sub: "set ps \<subseteq> set (nodeKeys g)" by simp_all
  from 3(1)[OF 3(3) 3(4) pn v]
  have i1: "top_inv g st1" and f1: "top_frame st st1" and p1: "p \<in> set (results st1)"
    by simp_all
  from 3(2)[OF v i1 3(4) sub r]
  have i2: "top_inv g st'" and f2: "top_frame st1 st'" and p2: "set ps \<subseteq> set (results st')"
    by simp_all
  from f2 p1 have "p \<in> set (results st')" by (auto simp: top_frame_def)
  with i2 p2 top_frame_trans[OF f1 f2] show ?case by simp
qed

lemma visit_onPath:
  "visit g node st = Some st' \<Longrightarrow> onPath st' = onPath st"
  "visitEach g ps st = Some st' \<Longrightarrow> onPath st' = onPath st"
proof (induction g node st and g ps st arbitrary: st' and st' rule: visit_visitEach.induct)
  case (1 g node st)
  from 1(2) have np: "node \<notin> onPath st"
    by (auto simp: visit.simps[of g node st] split: if_splits)
  show ?case
  proof (cases "node \<in> visited st")
    case True
    with 1(2) np show ?thesis by (simp add: visit.simps[of g node st])
  next
    case False
    with 1(2) np obtain st1 where
      v: "visitEach g (predecessors g node) (enterVisit node st) = Some st1"
      and e: "st' = leaveVisit node st1"
      by (auto simp: visit.simps[of g node st] split: option.splits)
    from 1(1)[OF np False v] e np show ?thesis by auto
  qed
next
  case (2 g st)
  then show ?case by (simp add: visitEach.simps)
next
  case (3 g p ps st)
  from 3(3) obtain st1 where v: "visit g p st = Some st1"
    and r: "visitEach g ps st1 = Some st'"
    by (auto simp: visitEach.simps(2)[of g p ps st] split: option.splits)
  from 3(1)[OF v] 3(2)[OF v r] show ?case by simp
qed

lemma top_total:
  "acyclic (edgeSet g) \<Longrightarrow> \<forall>x\<in>onPath st. (node, x) \<in> (edgeSet g)\<^sup>+
     \<Longrightarrow> visit g node st \<noteq> None"
  "acyclic (edgeSet g) \<Longrightarrow> \<forall>p\<in>set ps. \<forall>x\<in>onPath st. (p, x) \<in> (edgeSet g)\<^sup>+
     \<Longrightarrow> visitEach g ps st \<noteq> None"
proof (induction g node st and g ps st rule: visit_visitEach.induct)
  case (1 g node st)
  have np: "node \<notin> onPath st"
  proof
    assume "node \<in> onPath st"
    with 1(3) have "(node, node) \<in> (edgeSet g)\<^sup>+" by blast
    with 1(2) show False by (simp add: acyclic_def)
  qed
  show ?case
  proof (cases "node \<in> visited st")
    case True
    with np show ?thesis by (simp add: visit.simps[of g node st])
  next
    case False
    have "\<forall>p\<in>set (predecessors g node). \<forall>x\<in>onPath (enterVisit node st).
        (p, x) \<in> (edgeSet g)\<^sup>+"
    proof (intro ballI)
      fix p x assume p: "p \<in> set (predecessors g node)" and x: "x \<in> onPath (enterVisit node st)"
      from p have e: "(p, node) \<in> edgeSet g" by (simp add: predecessors_iff)
      show "(p, x) \<in> (edgeSet g)\<^sup>+"
      proof (cases "x = node")
        case True
        with e show ?thesis by auto
      next
        case False
        with x 1(3) have "(node, x) \<in> (edgeSet g)\<^sup>+" by simp
        with e show ?thesis by (rule trancl_into_trancl2)
      qed
    qed
    with 1(1)[OF np False 1(2)]
    have "visitEach g (predecessors g node) (enterVisit node st) \<noteq> None" by simp
    with np False show ?thesis
      by (auto simp: visit.simps[of g node st] split: option.splits)
  qed
next
  case (2 g st)
  then show ?case by (simp add: visitEach.simps)
next
  case (3 g p ps st)
  from 3(4) have "\<forall>x\<in>onPath st. (p, x) \<in> (edgeSet g)\<^sup>+" by simp
  with 3(1)[OF 3(3)] obtain st1 where v: "visit g p st = Some st1" by auto
  from visit_onPath(1)[OF v] 3(4)
  have "\<forall>q\<in>set ps. \<forall>x\<in>onPath st1. (q, x) \<in> (edgeSet g)\<^sup>+" by simp
  with 3(2)[OF v 3(3)] have "visitEach g ps st1 \<noteq> None" by simp
  with v show ?case by (simp add: visitEach.simps(2)[of g p ps st])
qed

text \<open>In a finite acyclic graph every node reaches a node without successors.\<close>

lemma finite_edgeSet [simp]: "finite (edgeSet g)"
  by (simp add: edgeSet_def)

lemma reaches_sink:
  assumes ac: "acyclic (edgeSet g)" and wf: "wf_graph g" and x: "x \<in> set (nodeKeys g)"
  shows "\<exists>s\<in>set (sinks g). (x, s) \<in> (edgeSet g)\<^sup>*"
proof -
  have w: "wf ((edgeSet g)\<inverse>)"
    using ac by (intro finite_acyclic_wf) (simp_all add: acyclic_converse)
  from w x show ?thesis
  proof (induction x rule: wf_induct_rule)
    case (less x)
    show ?case
    proof (cases "successors g x = []")
      case True
      with less.prems have "x \<in> set (sinks g)" by (simp add: sinks_def nodes_def)
      then show ?thesis by blast
    next
      case False
      then obtain y where y: "y \<in> set (successors g x)" by (cases "successors g x") auto
      then have e: "(x, y) \<in> edgeSet g" by (simp add: successors_iff)
      with wf have "y \<in> set (nodeKeys g)" by (auto simp: wf_graph_def edgeSet_def)
      with less.IH[of y] e obtain s where "s \<in> set (sinks g)" "(y, s) \<in> (edgeSet g)\<^sup>*"
        by auto
      with e show ?thesis by (meson converse_rtrancl_into_rtrancl)
    qed
  qed
qed

lemma results_before:
  assumes ord: "\<forall>ys y zs. rs = ys @ y # zs \<longrightarrow> (\<forall>p. (p, y) \<in> E \<longrightarrow> p \<in> set ys)"
    and ab: "(a, b) \<in> E\<^sup>+" and split: "rs = ys @ b # zs"
  shows "a \<in> set ys"
  using ab split
proof (induction arbitrary: ys zs rule: trancl_induct)
  case (base y)
  with ord show ?case by blast
next
  case (step y z)
  from ord step.prems step.hyps(2) have "y \<in> set ys" by blast
  then obtain ys1 ys2 where ys: "ys = ys1 @ y # ys2" by (meson split_list)
  with step.prems have "rs = ys1 @ y # (ys2 @ z # zs)" by simp
  from step.IH[OF this] ys show ?case by simp
qed

lemma ordered_no_cycle:
  assumes ord: "\<forall>ys y zs. rs = ys @ y # zs \<longrightarrow> (\<forall>p. (p, y) \<in> E \<longrightarrow> p \<in> set ys)"
    and cyc: "(x, x) \<in> E\<^sup>+"
  shows "x \<notin> set rs"
proof
  assume "x \<in> set rs"
  then obtain ys zs where "rs = ys @ x # zs" "x \<notin> set ys"
    by (meson split_list_first)
  with results_before[OF ord cyc] show False by blast
qed

lemma top_inv_initial: "top_inv g \<lparr>visited = {}, onPath = {}, results = []\<rparr>"
  by (simp add: top_inv_def)

lemma sinks_nodes: "set (sinks g) \<subseteq> set (nodeKeys g)"
  by (auto simp: sinks_def nodes_def)

lemma topsort_Some:
  assumes wf: "wf_graph g"
    and v: "visitEach g (sinks g) \<lparr>visited = {}, onPath = {}, results = []\<rparr> = Some st"
  shows "top_inv g st \<and> onPath st = {} \<and> set (sinks g) \<subseteq> visited st
    \<and> visited st = set (results st)"
proof -
  from top_step(2)[OF top_inv_initial wf sinks_nodes v]
  have i: "top_inv g st" and f: "top_frame \<lparr>visited = {}, onPath = {}, results = []\<rparr> st"
    and s: "set (sinks g) \<subseteq> set (results st)"
    by simp_all
  from f have on: "onPath st = {}" by (simp add: top_frame_def)
  with i have "visited st = set (results st)" by (simp add: top_inv_def)
  with i on s show ?thesis by simp
qed

lemma isDAG_acyclic:
  assumes wf: "wf_graph g"
  shows "isDAG g \<longleftrightarrow> acyclic (edgeSet g)"
proof
  assume dag: "isDAG g"
  then obtain st where
    v: "visitEach g (sinks g) \<lparr>visited = {}, onPath = {}, results = []\<rparr> = Some st"
    and c: "card (visited st) = length (nodes g)"
    by (auto simp: isDAG_def isAcyclic_def topsort_def split: option.splits if_splits)
  from topsort_Some[OF wf v] have i: "top_inv g st" and vr: "visited st = set (results st)"
    by blast+
  from i have sub: "visited st \<subseteq> set (nodeKeys g)" by (simp add: top_inv_def)
  from wf have "card (set (nodeKeys g)) = length (nodeKeys g)"
    by (simp add: wf_graph_def distinct_card)
  with c have "card (set (nodeKeys g)) = card (visited st)" by (simp add: nodes_def)
  with sub have all: "visited st = set (nodeKeys g)"
    by (intro card_subset_eq) simp_all
  show "acyclic (edgeSet g)"
    unfolding acyclic_def
  proof (intro allI notI)
    fix x assume cyc: "(x, x) \<in> (edgeSet g)\<^sup>+"
    then obtain y where "(x, y) \<in> edgeSet g" by (meson tranclD)
    with wf have "x \<in> set (nodeKeys g)" by (auto simp: wf_graph_def edgeSet_def)
    with all vr have "x \<in> set (results st)" by simp
    moreover from i have "\<forall>ys y zs. results st = ys @ y # zs \<longrightarrow>
        (\<forall>p. (p, y) \<in> edgeSet g \<longrightarrow> p \<in> set ys)"
      by (simp add: top_inv_def)
    then have "x \<notin> set (results st)" using cyc by (rule ordered_no_cycle)
    ultimately show False by simp
  qed
next
  assume ac: "acyclic (edgeSet g)"
  from top_total(2)[OF ac, of "sinks g" "\<lparr>visited = {}, onPath = {}, results = []\<rparr>"]
  obtain st where
    v: "visitEach g (sinks g) \<lparr>visited = {}, onPath = {}, results = []\<rparr> = Some st"
    by auto
  from topsort_Some[OF wf v] have i: "top_inv g st" and on: "onPath st = {}"
    and s: "set (sinks g) \<subseteq> visited st" and vr: "visited st = set (results st)"
    by blast+
  have closed: "p \<in> visited st" if "y \<in> visited st" "(p, y) \<in> edgeSet g" for p y
  proof -
    from that(1) vr obtain ys zs where "results st = ys @ y # zs" by (metis split_list)
    with i that(2) have "p \<in> set ys" by (auto simp: top_inv_def)
    then show ?thesis using vr \<open>results st = ys @ y # zs\<close> by simp
  qed
  have bwd: "x \<in> visited st" if "(x, s) \<in> (edgeSet g)\<^sup>*" "s \<in> visited st" for x s
    using that by (induction rule: converse_rtrancl_induct) (auto intro: closed)
  have "set (nodeKeys g) \<subseteq> visited st"
  proof
    fix x assume "x \<in> set (nodeKeys g)"
    with reaches_sink[OF ac wf] obtain s where "s \<in> set (sinks g)" "(x, s) \<in> (edgeSet g)\<^sup>*"
      by blast
    with s bwd show "x \<in> visited st" by blast
  qed
  moreover from i have "visited st \<subseteq> set (nodeKeys g)" by (simp add: top_inv_def)
  ultimately have "visited st = set (nodeKeys g)" by blast
  with wf have "card (visited st) = length (nodes g)"
    by (simp add: wf_graph_def distinct_card nodes_def)
  with v show "isDAG g" by (simp add: isDAG_def isAcyclic_def topsort_def)
qed

lemma length_findCycles:
  "length (findCycles g) = length (findStronglyConnectedComponents g)"
  unfolding findCycles_def by (simp only: length_sort length_map)

lemma hasCycle_sccs: "hasCycle g \<longleftrightarrow> findStronglyConnectedComponents g \<noteq> []"
  unfolding hasCycle_def length_findCycles by (rule length_greater_0_conv)

lemma hasCycle_iff:
  assumes wf: "wf_graph g"
  shows "hasCycle g \<longleftrightarrow> (\<exists>x y. y \<noteq> x \<and> y \<in> component g x)"
proof
  assume "hasCycle g"
  then have "findStronglyConnectedComponents g \<noteq> []" using hasCycle_sccs by blast
  then obtain c cs where "findStronglyConnectedComponents g = c # cs"
    by (meson list.exhaust)
  then have c: "c \<in> set (findStronglyConnectedComponents g)" by simp
  from scc_sound[of g] have
    "\<forall>c\<in>set (findStronglyConnectedComponents g).
        2 \<le> length c \<and> distinct c \<and> (\<exists>x\<in>set c. set c = component g x)"
    by (rule conjunct2)
  with c have l: "2 \<le> length c" "distinct c" and ex: "\<exists>x\<in>set c. set c = component g x"
    by blast+
  from ex obtain x where x: "x \<in> set c" "set c = component g x" by blast
  have "\<exists>y\<in>set c. y \<noteq> x"
  proof (rule ccontr)
    assume "\<not> (\<exists>y\<in>set c. y \<noteq> x)"
    with x(1) have "set c = {x}" by blast
    then have "card (set c) = 1" by simp
    with l distinct_card[of c] show False by linarith
  qed
  then obtain y where "y \<in> set c" "y \<noteq> x" by blast
  with x(2) have "y \<noteq> x \<and> y \<in> component g x" by simp
  then show "\<exists>x y. y \<noteq> x \<and> y \<in> component g x" by blast
next
  assume "\<exists>x y. y \<noteq> x \<and> y \<in> component g x"
  then obtain x y where "y \<in> component g x" "y \<noteq> x" by blast
  from scc_complete[OF wf this] obtain c where
    "c \<in> set (findStronglyConnectedComponents g)" by blast
  then have "findStronglyConnectedComponents g \<noteq> []" by (cases "findStronglyConnectedComponents g") simp_all
  then show "hasCycle g" using hasCycle_sccs by blast
qed

lemma nontrivial_component_cycle:
  assumes "y \<in> component g x" and "y \<noteq> x"
  shows "(x, x) \<in> (edgeSet g)\<^sup>+"
proof -
  from assms have xy: "(x, y) \<in> (edgeSet g)\<^sup>*" and yx: "(y, x) \<in> (edgeSet g)\<^sup>*"
    by (simp_all add: component_def reachable_def)
  from xy assms(2) have "(x, y) \<in> (edgeSet g)\<^sup>+" by (metis rtranclD)
  then show ?thesis using yx by (rule trancl_rtrancl_trancl)
qed

lemma cycle_nontrivial_component:
  assumes "(x, x) \<in> (edgeSet g)\<^sup>+" and "\<forall>v. (v, v) \<notin> edgeSet g"
  shows "\<exists>y. y \<noteq> x \<and> y \<in> component g x"
proof -
  from assms(1) obtain y where e: "(x, y) \<in> edgeSet g" and r: "(y, x) \<in> (edgeSet g)\<^sup>*"
    by (meson tranclD)
  with assms(2) have "y \<noteq> x" by auto
  moreover from e r have "y \<in> component g x"
    by (auto simp: component_def reachable_def)
  ultimately show ?thesis by blast
qed

section \<open>Claims about isDAG\<close>

text \<open>
  C3, as the specification states it, has \<^verbatim>\<open>isDAG\<close> equal to the negation of
  \<^verbatim>\<open>hasCycle\<close> also for graphs whose only cycles are self-loops. For a file
  importing itself the topological sort meets the node on its own path and
  \<^verbatim>\<open>isDAG\<close> is false, while \<^verbatim>\<open>findCycles\<close> drops the component of one
  node and \<^verbatim>\<open>hasCycle\<close> is false too.
\<close>

theorem isDAG_self_loop_counterexample:
  "isDAG (buildGraph [importRel ''/src/a.ts'' ''/src/a.ts''])
     \<noteq> (\<not> hasCycle (buildGraph [importRel ''/src/a.ts'' ''/src/a.ts'']))"
  by code_simp

text \<open>
  C3, amended: for every graph of the builder, \<^verbatim>\<open>hasCycle\<close> holds iff
  \<^verbatim>\<open>findCycles\<close> returns an entry of length at least 2, which is iff two different
  nodes reach each other; \<^verbatim>\<open>isDAG\<close> holds iff the edges have no cycle at all;
  so \<^verbatim>\<open>isDAG\<close> implies the negation of \<^verbatim>\<open>hasCycle\<close>, and they are
  equivalent when no node has an edge to itself.
\<close>

theorem hasCycle_isDAG:
  assumes wf: "wf_graph g"
  shows "(hasCycle g \<longleftrightarrow> (\<exists>c\<in>set (findCycles g). 2 \<le> c_length c))
    \<and> (hasCycle g \<longleftrightarrow> (\<exists>x y. y \<noteq> x \<and> reachable g x y \<and> reachable g y x))
    \<and> (isDAG g \<longleftrightarrow> acyclic (edgeSet g))
    \<and> (isDAG g \<longrightarrow> \<not> hasCycle g)
    \<and> ((\<forall>v. (v, v) \<notin> edgeSet g) \<longrightarrow> isDAG g = (\<not> hasCycle g))"
proof -
  have a: "hasCycle g \<longleftrightarrow> (\<exists>c\<in>set (findCycles g). 2 \<le> c_length c)"
  proof
    assume "hasCycle g"
    then have "findCycles g \<noteq> []" by (simp add: hasCycle_def)
    then obtain c cs where "findCycles g = c # cs" by (meson list.exhaust)
    then have c: "c \<in> set (findCycles g)" by simp
    then obtain c0 where c0: "c0 \<in> set (findStronglyConnectedComponents g)" "c = mkCycle g c0"
      by (auto simp: set_findCycles)
    from scc_sound[of g] c0(1) have "2 \<le> length c0" by blast
    with c0(2) have "2 \<le> c_length c" by (simp add: mkCycle_def)
    with c show "\<exists>c\<in>set (findCycles g). 2 \<le> c_length c" by blast
  next
    assume "\<exists>c\<in>set (findCycles g). 2 \<le> c_length c"
    then obtain c where "c \<in> set (findCycles g)" by blast
    then have "findCycles g \<noteq> []" by (cases "findCycles g") simp_all
    then show "hasCycle g" by (simp add: hasCycle_def)
  qed
  have b: "hasCycle g \<longleftrightarrow> (\<exists>x y. y \<noteq> x \<and> reachable g x y \<and> reachable g y x)"
    unfolding hasCycle_iff[OF wf] component_def by simp
  have c: "isDAG g \<longleftrightarrow> acyclic (edgeSet g)" using wf by (rule isDAG_acyclic)
  have d: "isDAG g \<longrightarrow> \<not> hasCycle g"
  proof (intro impI notI)
    assume "isDAG g" "hasCycle g"
    with hasCycle_iff[OF wf] obtain x y where "y \<in> component g x" "y \<noteq> x" by blast
    then have "(x, x) \<in> (edgeSet g)\<^sup>+" by (rule nontrivial_component_cycle)
    with \<open>isDAG g\<close> c show False by (simp add: acyclic_def)
  qed
  have e: "(\<forall>v. (v, v) \<notin> edgeSet g) \<longrightarrow> isDAG g = (\<not> hasCycle g)"
  proof (intro impI)
    assume nl: "\<forall>v. (v, v) \<notin> edgeSet g"
    have "hasCycle g" if "\<not> isDAG g"
    proof -
      from that c obtain x where "(x, x) \<in> (edgeSet g)\<^sup>+" by (auto simp: acyclic_def)
      from cycle_nontrivial_component[OF this nl] show ?thesis
        using hasCycle_iff[OF wf] by blast
    qed
    with d show "isDAG g = (\<not> hasCycle g)" by blast
  qed
  from a b c d e show ?thesis by blast
qed

theorem hasCycle_isDAG_witness:
  "wf_graph (buildGraph [importRel ''/src/a.ts'' ''/src/b.ts'', importRel ''/src/b.ts'' ''/src/c.ts''])
   \<and> isDAG (buildGraph [importRel ''/src/a.ts'' ''/src/b.ts'', importRel ''/src/b.ts'' ''/src/c.ts''])
   \<and> \<not> hasCycle (buildGraph [importRel ''/src/a.ts'' ''/src/b.ts'', importRel ''/src/b.ts'' ''/src/c.ts''])
   \<and> acyclic (edgeSet (buildGraph [importRel ''/src/a.ts'' ''/src/b.ts'', importRel ''/src/b.ts'' ''/src/c.ts'']))"
proof -
  let ?g = "buildGraph [importRel ''/src/a.ts'' ''/src/b.ts'', importRel ''/src/b.ts'' ''/src/c.ts'']"
  have w: "wf_graph ?g" by (rule wf_graph_buildGraph)
  have d: "isDAG ?g" by code_simp
  from hasCycle_isDAG[OF w] d w show ?thesis by blast
qed

end
